theory Spec2Isabelle
  imports Main "HOL-Library.Word" "HOL-Library.Finite_Map"
begin

unbundle bit_operations_syntax

section \<open>Data model\<close>

type_synonym uint64 = "64 word"
type_synonym uint8 = "8 word"

text \<open>
  The Go struct \<^verbatim>\<open>Value\<close> of stringer.go: the constant's name, its bit pattern and whether
  its type is signed. The fourth field \<^verbatim>\<open>str\<close> is the decimal text of the constant; the
  generated code reads it back as a literal, so the model uses the bit pattern in its place.
\<close>

record Value =
  name :: string
  val :: uint64
  signed :: bool

text \<open>
  Panics, \<^verbatim>\<open>os.Exit(1)\<close>, \<^verbatim>\<open>log.Fatalf\<close> and a loop that never returns, as values.
\<close>

datatype error =
    IndexOutOfRange
  | SliceOutOfRange
  | NameTooLong nat string
  | ConstantOverflow
  | NoReturn
  | NoValues string

section \<open>Run Partitioner: \<^verbatim>\<open>splitIntoBitflagRuns\<close>\<close>

text \<open>\<^verbatim>\<open>singleBitSet\<close>: \<^verbatim>\<open>v != 0 && (v&(v-1)) == 0\<close>.\<close>

definition singleBitSet :: "uint64 \<Rightarrow> bool" where
  "singleBitSet v = (v \<noteq> 0 \<and> v AND (v - 1) = 0)"

text \<open>\<^verbatim>\<open>byValue.Less\<close>: signed or unsigned comparison, by the flag of the left operand.\<close>

definition byValue_Less :: "Value \<Rightarrow> Value \<Rightarrow> bool" where
  "byValue_Less a b = (if signed a then sint (val a) < sint (val b) else val a < val b)"

text \<open>
  \<^verbatim>\<open>sort.Stable\<close>: the stable sort of the list under \<^verbatim>\<open>Less\<close>, written as the insertion
  sort that puts an element in front of the elements it is not greater than.
\<close>

fun insert_stable :: "('a \<Rightarrow> 'a \<Rightarrow> bool) \<Rightarrow> 'a \<Rightarrow> 'a list \<Rightarrow> 'a list" where
  "insert_stable lt x [] = [x]"
| "insert_stable lt x (y # ys) =
     (if lt y x then y # insert_stable lt x ys else x # y # ys)"

definition sort_Stable :: "('a \<Rightarrow> 'a \<Rightarrow> bool) \<Rightarrow> 'a list \<Rightarrow> 'a list" where
  "sort_Stable lt xs = foldr (insert_stable lt) xs []"

text \<open>\<^verbatim>\<open>for values[0].value == 0 { values = values[1:] }\<close>: indexing an empty slice panics.\<close>

fun strip_zeros :: "Value list \<Rightarrow> error + Value list" where
  "strip_zeros [] = Inl IndexOutOfRange"
| "strip_zeros (v # vs) = (if val v = 0 then strip_zeros vs else Inr (v # vs))"

text \<open>
  The in-place filter \<^verbatim>\<open>for i := 1; i < len(values); i++\<close>, with the slice and the write
  index \<^verbatim>\<open>j\<close> as state. Element 0 is never tested.
\<close>

function remove_loop :: "nat \<Rightarrow> nat \<Rightarrow> Value list \<Rightarrow> Value list \<times> nat" where
  "remove_loop i j values =
     (if i < length values then
        (if val (values ! i) \<noteq> val (values ! (i - 1)) \<and> singleBitSet (val (values ! i))
         then remove_loop (i + 1) (j + 1) (values[j := values ! i])
         else remove_loop (i + 1) j values)
      else (values, j))"
  by pat_completeness auto
termination
  by (relation "measure (\<lambda>(i, j, values). length values - i)") auto

text \<open>The inner loop of the run splitting: \<^verbatim>\<open>for i < len(values) && values[i].value == values[i-1].value<<1\<close>.\<close>

function run_end :: "nat \<Rightarrow> Value list \<Rightarrow> nat" where
  "run_end i values =
     (if i < length values \<and> val (values ! i) = push_bit 1 (val (values ! (i - 1)))
      then run_end (i + 1) values else i)"
  by pat_completeness auto
termination
  by (relation "measure (\<lambda>(i, values). length values - i)") auto

declare run_end.simps [simp del]
declare remove_loop.simps [simp del]

text \<open>The outer loop: one run per iteration, \<^verbatim>\<open>values[:i]\<close> appended and \<^verbatim>\<open>values[i:]\<close> kept.\<close>

function split_runs :: "Value list \<Rightarrow> Value list list" where
  "split_runs values =
     (if length values > 0 then
        (let i = run_end 1 values in take i values # split_runs (drop i values))
      else [])"
  by pat_completeness auto
termination
proof (relation "measure length")
  show "wf (measure length)" by simp
next
  fix vs :: "Value list" and x
  assume "0 < length vs" and "x = run_end 1 vs"
  moreover have "i \<le> run_end i vs" for i
  proof (induction i vs rule: run_end.induct)
    case (1 i vs)
    show ?case
    proof (cases "i < length vs \<and> val (vs ! i) = push_bit 1 (val (vs ! (i - 1)))")
      case True
      then have "run_end i vs = run_end (i + 1) vs" by (subst run_end.simps) simp
      moreover have "i + 1 \<le> run_end (i + 1) vs" using 1 True by simp
      ultimately show ?thesis by simp
    next
      case False
      then have "run_end i vs = i" by (subst run_end.simps) auto
      then show ?thesis by simp
    qed
  qed
  ultimately show "(drop x vs, vs) \<in> measure length"
    by (metis One_nat_def diff_less in_measure length_drop less_le_trans zero_less_one)
qed

declare split_runs.simps [simp del]

definition splitIntoBitflagRuns :: "Value list \<Rightarrow> error + (Value option \<times> Value list list)" where
  "splitIntoBitflagRuns values0 =
     (let values1 = map (\<lambda>v. v\<lparr>signed := False\<rparr>) values0;
          values2 = sort_Stable byValue_Less values1
      in case values2 of
           [] \<Rightarrow> Inl IndexOutOfRange
         | v0 # _ \<Rightarrow>
             (case (if val v0 = 0 then
                      (case strip_zeros values2 of Inl e \<Rightarrow> Inl e | Inr vs \<Rightarrow> Inr (Some v0, vs))
                    else Inr (None, values2)) of
                Inl e \<Rightarrow> Inl e
              | Inr (zero, values3) \<Rightarrow>
                  (let (values4, j) = remove_loop 1 1 values3;
                       values5 = take j values4
                   in Inr (zero, split_runs values5))))"

section \<open>Name Table Builder: \<^verbatim>\<open>nameAndRest\<close>\<close>

text \<open>
  \<^verbatim>\<open>shiftCount\<close>: \<^verbatim>\<open>for prev < next { count++; prev <<= 1 }\<close>. The loop does not return
  when \<^verbatim>\<open>prev\<close> reaches 0 below \<^verbatim>\<open>next\<close>, so the result is an option.
\<close>

partial_function (option) shiftCount_loop :: "uint64 \<Rightarrow> uint64 \<Rightarrow> int \<Rightarrow> int option" where
  "shiftCount_loop prev next count =
     (if prev < next then shiftCount_loop (push_bit 1 prev) next (count + 1) else Some count)"

declare shiftCount_loop.simps [code]

definition shiftCount :: "uint64 \<Rightarrow> uint64 \<Rightarrow> int option" where
  "shiftCount prev next = shiftCount_loop prev next 0"

text \<open>\<^verbatim>\<open>runLastValue\<close>: \<^verbatim>\<open>&run[len(run)-1]\<close>, a panic on an empty run.\<close>

definition runLastValue :: "Value list \<Rightarrow> error + Value" where
  "runLastValue run = (if run = [] then Inl IndexOutOfRange else Inr (run ! (length run - 1)))"

text \<open>
  The inner loop of \<^verbatim>\<open>nameAndRest\<close> over one run: the name is appended, a name of more
  than 255 bytes prints a message and calls \<^verbatim>\<open>os.Exit(1)\<close>, otherwise its length is appended
  to the offsets.
\<close>

fun nameAndRest_run :: "Value list \<Rightarrow> string list \<times> int list \<Rightarrow> error + string list \<times> int list" where
  "nameAndRest_run [] acc = Inr acc"
| "nameAndRest_run (x # xs) (names, offsets) =
     (let n = name x; o' = length n in
        if o' > 255 then Inl (NameTooLong o' n)
        else nameAndRest_run xs (names @ [n], offsets @ [int o']))"

text \<open>
  The outer loop \<^verbatim>\<open>for r, run := range runs\<close>, on the runs from index \<^verbatim>\<open>r\<close> on: when
  \<^verbatim>\<open>r < len(runs)-1\<close> the skip to \<^verbatim>\<open>runs[r+1][0]\<close> is appended to the skips and a 0 to the
  offsets.
\<close>

fun nameAndRest_loop ::
  "Value list list \<Rightarrow> string list \<times> int list \<times> int list \<Rightarrow> error + string list \<times> int list \<times> int list" where
  "nameAndRest_loop [] acc = Inr acc"
| "nameAndRest_loop (run # rest) (names, offsets, skips) =
     (case nameAndRest_run run (names, offsets) of
        Inl e \<Rightarrow> Inl e
      | Inr (names', offsets') \<Rightarrow>
          (case rest of
             [] \<Rightarrow> nameAndRest_loop rest (names', offsets', skips)
           | nxt # _ \<Rightarrow>
               (case runLastValue run of
                  Inl e \<Rightarrow> Inl e
                | Inr lst \<Rightarrow>
                    (case nxt of
                       [] \<Rightarrow> Inl IndexOutOfRange
                     | nxt0 # _ \<Rightarrow>
                         (case shiftCount (val lst) (val nxt0) of
                            None \<Rightarrow> Inl NoReturn
                          | Some c \<Rightarrow>
                              nameAndRest_loop rest (names', offsets' @ [0], skips @ [c - 1]))))))"

text \<open>\<^verbatim>\<open>nameAndRest\<close>: the joined names, the offsets and the skips.\<close>

definition nameAndRest :: "Value list list \<Rightarrow> error + string \<times> int list \<times> int list" where
  "nameAndRest runs =
     (case nameAndRest_loop runs ([], [], []) of
        Inl e \<Rightarrow> Inl e
      | Inr (names, offsets, skips) \<Rightarrow> Inr (concat names, offsets, skips))"

section \<open>The encoded table\<close>

text \<open>The struct \<^verbatim>\<open>_stringerBitflag\<close> of the generated common file.\<close>

record stringerBitflag =
  typename :: string
  zero :: string
  names :: string
  first :: uint64
  offsets :: "uint8 list"
  skips :: "uint8 list"

text \<open>
  The offsets and skips are printed as the elements of a \<^verbatim>\<open>[]uint8\<close> literal; an element
  outside 0..255 is a constant overflow of the generated source.
\<close>

fun uint8_literals :: "int list \<Rightarrow> error + uint8 list" where
  "uint8_literals [] = Inr []"
| "uint8_literals (i # is) =
     (if 0 \<le> i \<and> i \<le> 255 then
        (case uint8_literals is of Inl e \<Rightarrow> Inl e | Inr ws \<Rightarrow> Inr (word_of_int i # ws))
      else Inl ConstantOverflow)"

text \<open>
  \<^verbatim>\<open>buildBitflag\<close>, up to the data it prints: the zero name, the initial value
  \<^verbatim>\<open>runs[0][0]\<close>, the name blob, the offsets and the skips.
\<close>

definition buildBitflag :: "Value list \<Rightarrow> string \<Rightarrow> error + stringerBitflag" where
  "buildBitflag values typeName =
     (case splitIntoBitflagRuns values of
        Inl e \<Rightarrow> Inl e
      | Inr (zero', runs) \<Rightarrow>
          (let zeroName = (case zero' of None \<Rightarrow> typeName @ ''(0)'' | Some z \<Rightarrow> name z) in
           case runs of
             [] \<Rightarrow> Inl IndexOutOfRange
           | [] # _ \<Rightarrow> Inl IndexOutOfRange
           | (v0 # _) # _ \<Rightarrow>
               (case nameAndRest runs of
                  Inl e \<Rightarrow> Inl e
                | Inr (name', offsets', skips') \<Rightarrow>
                    (case uint8_literals offsets' of
                       Inl e \<Rightarrow> Inl e
                     | Inr os \<Rightarrow>
                         (case uint8_literals skips' of
                            Inl e \<Rightarrow> Inl e
                          | Inr ss \<Rightarrow>
                              Inr \<lparr>typename = typeName, zero = zeroName, names = name',
                                   first = val v0, offsets = os, skips = ss\<rparr>)))))"

section \<open>Decode Algorithm: \<^verbatim>\<open>mstring\<close>\<close>

text \<open>
  \<^verbatim>\<open>strconv.FormatUint(m, 16)\<close>: lower-case hexadecimal digits, no leading zeros. For a
  base that is a power of two the library takes the digits by masking and shifting.
\<close>

definition hexdigit :: "nat \<Rightarrow> char" where
  "hexdigit d = ''0123456789abcdef'' ! d"

function FormatUint16 :: "uint64 \<Rightarrow> string" where
  "FormatUint16 u =
     (if u < 16 then [hexdigit (unat u)]
      else FormatUint16 (drop_bit 4 u) @ [hexdigit (unat (u AND 15))])"
  by pat_completeness auto
termination
proof (relation "measure unat")
  show "wf (measure unat)" by simp
next
  fix u :: uint64
  assume "\<not> u < 16"
  then have "16 \<le> unat u" by (simp add: word_less_nat_alt)
  moreover have "unat (drop_bit 4 u) = unat u div 16"
    by (simp add: unat_drop_bit_eq) (simp add: drop_bit_eq_div)
  ultimately show "(drop_bit 4 u, u) \<in> measure unat" by simp
qed

declare FormatUint16.simps [simp del]

text \<open>A Go slice expression \<^verbatim>\<open>s[p0:p1]\<close>: a panic unless \<^verbatim>\<open>p0 <= p1 <= len(s)\<close>.\<close>

definition slice :: "string \<Rightarrow> nat \<Rightarrow> nat \<Rightarrow> error + string" where
  "slice s p0 p1 = (if p0 \<le> p1 \<and> p1 \<le> length s then Inr (take (p1 - p0) (drop p0 s)) else Inl SliceOutOfRange)"

text \<open>
  The loop of \<^verbatim>\<open>mstring\<close> ends by a \<^verbatim>\<open>return\<close> inside the body or by running past the
  last offset with the bytes \<^verbatim>\<open>b\<close> and the rest of the mask \<^verbatim>\<open>m\<close>.
\<close>

datatype 'm loop_result = Return string | Exhausted string 'm

text \<open>
  The loop \<^verbatim>\<open>for i := 0; i < l; i, v = i+1, v<<1\<close> over the offsets from index \<^verbatim>\<open>i\<close> on,
  with \<^verbatim>\<open>v\<close>, \<^verbatim>\<open>si\<close>, \<^verbatim>\<open>p1\<close>, \<^verbatim>\<open>m\<close> and \<^verbatim>\<open>b\<close> as state (\<^verbatim>\<open>p0\<close> is assigned from
  \<^verbatim>\<open>p1\<close> before every use). The subtraction \<^verbatim>\<open>skips[si] - 1\<close> is on \<^verbatim>\<open>uint8\<close>; a shift
  by 64 or more gives 0.
\<close>

fun mstring_loop ::
  "stringerBitflag \<Rightarrow> uint8 list \<Rightarrow> uint64 \<Rightarrow> nat \<Rightarrow> nat \<Rightarrow> uint64 \<Rightarrow> string \<Rightarrow> error + uint64 loop_result" where
  "mstring_loop sb [] v si p1 m b = Inr (Exhausted b m)"
| "mstring_loop sb (o' # os) v si p1 m b =
     (if o' = 0 then
        (if si < length (skips sb) then
           mstring_loop sb os (push_bit 1 (push_bit (unat (skips sb ! si - 1)) v)) (si + 1) p1 m b
         else Inl IndexOutOfRange)
      else
        (let p0 = p1; p1' = p1 + unat o' in
         if v AND m = 0 then mstring_loop sb os (push_bit 1 v) si p1' m b
         else
           (let m' = m XOR v in
            if b = [] \<and> m' = 0 then
              (case slice (names sb) p0 p1' of Inl e \<Rightarrow> Inl e | Inr s \<Rightarrow> Inr (Return s))
            else
              (let b1 = (if b = [] then b @ ''('' else b @ ''|'') in
               case slice (names sb) p0 p1' of
                 Inl e \<Rightarrow> Inl e
               | Inr s \<Rightarrow>
                   (let b2 = b1 @ s in
                    if m' = 0 then Inr (Return (b2 @ '')''))
                    else mstring_loop sb os (push_bit 1 v) si p1' m' b2)))))"

text \<open>The text after the loop: the rest of the mask in hexadecimal, alone or appended.\<close>

definition fallback :: "string \<Rightarrow> uint64 \<Rightarrow> string" where
  "fallback tn m = tn @ ''(0x'' @ FormatUint16 m @ '')''"

definition finish :: "string \<Rightarrow> uint64 loop_result \<Rightarrow> string" where
  "finish tn r =
     (case r of
        Return s \<Rightarrow> s
      | Exhausted b m \<Rightarrow> (if b = [] then fallback tn m else b @ ''|'' @ fallback tn m @ '')''))"

text \<open>\<^verbatim>\<open>(sb *_stringerBitflag) mstring(m uint64) string\<close>.\<close>

definition mstring :: "stringerBitflag \<Rightarrow> uint64 \<Rightarrow> error + string" where
  "mstring sb m =
     (if m = 0 then Inr (zero sb)
      else (case mstring_loop sb (offsets sb) (first sb) 0 0 m [] of
              Inl e \<Rightarrow> Inl e
            | Inr r \<Rightarrow> Inr (finish (typename sb) r)))"

section \<open>Generated \<^verbatim>\<open>String\<close> methods\<close>

text \<open>
  The methods are generated for the type \<^verbatim>\<open>T\<close> of the constants: an integer type of
  \<^verbatim>\<open>LENGTH('a)\<close> bits, a value of which is an \<^typ>\<open>'a word\<close>, signed when \<^verbatim>\<open>is_signed\<close> holds. The
  conversion \<^verbatim>\<open>uint64(m)\<close> of a value of \<^verbatim>\<open>T\<close> extends the sign of a signed type.
\<close>

definition uint64_of :: "bool \<Rightarrow> 'a::len word \<Rightarrow> uint64" where
  "uint64_of is_signed m = (if is_signed then scast m else ucast m)"

text \<open>
  The table-driven method (\<^verbatim>\<open>stringBitflagTableDrivenNotCached\<close>):
  \<^verbatim>\<open>func (m T) String() string { return _T_stringer.mstring(uint64(m)) }\<close>.
\<close>

definition String_table_driven :: "bool \<Rightarrow> stringerBitflag \<Rightarrow> 'a::len word \<Rightarrow> error + string" where
  "String_table_driven is_signed sb m = mstring sb (uint64_of is_signed m)"

text \<open>
  The templates \<^verbatim>\<open>stringBitflagCode\<close> and \<^verbatim>\<open>stringBitflagCodeWithSkips\<close> work on the receiver
  at its own type: \<^verbatim>\<open>v\<close> and \<^verbatim>\<open>m\<close> are values of \<^verbatim>\<open>T\<close>, the shifts, \<^verbatim>\<open>v&m\<close> and
  \<^verbatim>\<open>m ^= v\<close> are at the width of \<^verbatim>\<open>T\<close>, and \<^verbatim>\<open>m\<close> is converted to \<^verbatim>\<open>uint64\<close> only for
  the hexadecimal text after the loop. Their data are what \<^verbatim>\<open>buildBitflag\<close> prints for
  them: \<^verbatim>\<open>_T_name\<close>, \<^verbatim>\<open>_T_offset\<close> and \<^verbatim>\<open>_T_skips\<close> (the fields \<^verbatim>\<open>names\<close>, \<^verbatim>\<open>offsets\<close> and
  \<^verbatim>\<open>skips\<close> of the record), the zero name and the initial value. The initial value is the
  first constant; it is a constant of \<^verbatim>\<open>T\<close>, so \<^verbatim>\<open>T(...)\<close> of it is the low bits of the
  bit pattern kept in \<^verbatim>\<open>value\<close>. The first template has no test for a zero offset.

  The record holds the values of the data. In the generated source the blob is written
  with \<^verbatim>\<open>%q\<close> for \<^verbatim>\<open>_T_name\<close> and between quotes for \<^verbatim>\<open>names\<close>, and the initial value as
  the decimal text of the first constant, inside \<^verbatim>\<open>T(...)\<close> and inside \<^verbatim>\<open>uint64(...)\<close>: for
  names without quotes, backslashes and control characters and a first constant that is
  not negative, these texts denote the values of the record.
\<close>

fun stringBitflagCode_loop ::
  "stringerBitflag \<Rightarrow> uint8 list \<Rightarrow> 'a::len word \<Rightarrow> nat \<Rightarrow> 'a word \<Rightarrow> string
   \<Rightarrow> error + 'a word loop_result" where
  "stringBitflagCode_loop sb [] v p1 m b = Inr (Exhausted b m)"
| "stringBitflagCode_loop sb (o' # os) v p1 m b =
     (let p0 = p1; p1' = p1 + unat o' in
      if v AND m = 0 then stringBitflagCode_loop sb os (push_bit 1 v) p1' m b
      else
        (let m' = m XOR v in
         if b = [] \<and> m' = 0 then
           (case slice (names sb) p0 p1' of Inl e \<Rightarrow> Inl e | Inr s \<Rightarrow> Inr (Return s))
         else
           (let b1 = (if b = [] then b @ ''('' else b @ ''|'') in
            case slice (names sb) p0 p1' of
              Inl e \<Rightarrow> Inl e
            | Inr s \<Rightarrow>
                (let b2 = b1 @ s in
                 if m' = 0 then Inr (Return (b2 @ '')''))
                 else stringBitflagCode_loop sb os (push_bit 1 v) p1' m' b2))))"

text \<open>
  The text after the loop of a per-type method:
  \<^verbatim>\<open>"T(0x" + strconv.FormatUint(uint64(m), 16) + ")"\<close>, alone or appended.
\<close>

definition finish_per_type :: "bool \<Rightarrow> string \<Rightarrow> 'a::len word loop_result \<Rightarrow> string" where
  "finish_per_type is_signed tn r =
     (case r of
        Return s \<Rightarrow> s
      | Exhausted b m \<Rightarrow>
          (if b = [] then fallback tn (uint64_of is_signed m)
           else b @ ''|'' @ fallback tn (uint64_of is_signed m) @ '')''))"

definition stringBitflagCode :: "bool \<Rightarrow> stringerBitflag \<Rightarrow> 'a::len word \<Rightarrow> error + string" where
  "stringBitflagCode is_signed sb m =
     (if m = 0 then Inr (zero sb)
      else (case stringBitflagCode_loop sb (offsets sb) (ucast (first sb)) 0 m [] of
              Inl e \<Rightarrow> Inl e
            | Inr r \<Rightarrow> Inr (finish_per_type is_signed (typename sb) r)))"

fun stringBitflagCodeWithSkips_loop ::
  "stringerBitflag \<Rightarrow> uint8 list \<Rightarrow> 'a::len word \<Rightarrow> nat \<Rightarrow> nat \<Rightarrow> 'a word \<Rightarrow> string
   \<Rightarrow> error + 'a word loop_result" where
  "stringBitflagCodeWithSkips_loop sb [] v si p1 m b = Inr (Exhausted b m)"
| "stringBitflagCodeWithSkips_loop sb (o' # os) v si p1 m b =
     (if o' = 0 then
        (if si < length (skips sb) then
           stringBitflagCodeWithSkips_loop sb os
             (push_bit 1 (push_bit (unat (skips sb ! si - 1)) v)) (si + 1) p1 m b
         else Inl IndexOutOfRange)
      else
        (let p0 = p1; p1' = p1 + unat o' in
         if v AND m = 0 then stringBitflagCodeWithSkips_loop sb os (push_bit 1 v) si p1' m b
         else
           (let m' = m XOR v in
            if b = [] \<and> m' = 0 then
              (case slice (names sb) p0 p1' of Inl e \<Rightarrow> Inl e | Inr s \<Rightarrow> Inr (Return s))
            else
              (let b1 = (if b = [] then b @ ''('' else b @ ''|'') in
               case slice (names sb) p0 p1' of
                 Inl e \<Rightarrow> Inl e
               | Inr s \<Rightarrow>
                   (let b2 = b1 @ s in
                    if m' = 0 then Inr (Return (b2 @ '')''))
                    else stringBitflagCodeWithSkips_loop sb os (push_bit 1 v) si p1' m' b2)))))"

definition stringBitflagCodeWithSkips ::
  "bool \<Rightarrow> stringerBitflag \<Rightarrow> 'a::len word \<Rightarrow> error + string" where
  "stringBitflagCodeWithSkips is_signed sb m =
     (if m = 0 then Inr (zero sb)
      else (case stringBitflagCodeWithSkips_loop sb (offsets sb) (ucast (first sb)) 0 0 m [] of
              Inl e \<Rightarrow> Inl e
            | Inr r \<Rightarrow> Inr (finish_per_type is_signed (typename sb) r)))"

text \<open>\<^verbatim>\<open>buildBitflag\<close> picks the template by \<^verbatim>\<open>len(skips) == 0\<close>.\<close>

definition String_per_type :: "bool \<Rightarrow> stringerBitflag \<Rightarrow> 'a::len word \<Rightarrow> error + string" where
  "String_per_type is_signed sb m =
     (if length (skips sb) = 0 then stringBitflagCode is_signed sb m
      else stringBitflagCodeWithSkips is_signed sb m)"

section \<open>Bounded Memoizing Cache: \<^verbatim>\<open>_stringerBitflagCache\<close>\<close>

text \<open>
  The struct without its lock: the table and the map, which is \<^verbatim>\<open>nil\<close> until the first
  insertion.
\<close>

record stringerBitflagCache =
  sb :: stringerBitflag
  cached :: "(uint64, string) fmap option"

definition capCache :: nat where
  "capCache = 256"

text \<open>\<^verbatim>\<open>len(c.cached)\<close>; the length of a nil map is 0.\<close>

definition cache_len :: "stringerBitflagCache \<Rightarrow> nat" where
  "cache_len c = (case cached c of None \<Rightarrow> 0 | Some mp \<Rightarrow> fcard (fmdom mp))"

text \<open>The keys of the map.\<close>

definition cache_keys :: "stringerBitflagCache \<Rightarrow> uint64 fset" where
  "cache_keys c = (case cached c of None \<Rightarrow> {||} | Some mp \<Rightarrow> fmdom mp)"

text \<open>The section under the read lock: \<^verbatim>\<open>if c.cached != nil { s, ok = c.cached[m] }\<close>.\<close>

definition cache_lookup :: "stringerBitflagCache \<Rightarrow> uint64 \<Rightarrow> string \<times> bool" where
  "cache_lookup c m =
     (case cached c of
        None \<Rightarrow> ([], False)
      | Some mp \<Rightarrow> (case fmlookup mp m of None \<Rightarrow> ([], False) | Some s \<Rightarrow> (s, True)))"

text \<open>
  The section under the write lock:
  \<^verbatim>\<open>if c.cached == nil || len(c.cached) >= 256 { c.cached = make(...) }; c.cached[m] = s\<close>.
\<close>

definition cache_insert :: "stringerBitflagCache \<Rightarrow> uint64 \<Rightarrow> string \<Rightarrow> stringerBitflagCache" where
  "cache_insert c m s =
     (let mp = (case cached c of
                  None \<Rightarrow> fmempty
                | Some mp \<Rightarrow> if fcard (fmdom mp) \<ge> capCache then fmempty else mp)
      in c\<lparr>cached := Some (fmupd m s mp)\<rparr>)"

text \<open>\<^verbatim>\<open>(c *_stringerBitflagCache) mstring(m uint64) string\<close>, returning the new cache too.\<close>

definition cache_mstring :: "stringerBitflagCache \<Rightarrow> uint64 \<Rightarrow> error + string \<times> stringerBitflagCache" where
  "cache_mstring c m =
     (if m = 0 then Inr (zero (sb c), c)
      else
        (let (s, ok) = cache_lookup c m in
         if ok then Inr (s, c)
         else (case mstring (sb c) m of
                 Inl e \<Rightarrow> Inl e
               | Inr s' \<Rightarrow> Inr (s', cache_insert c m s'))))"

text \<open>A sequence of calls on one cache, one after the other.\<close>

fun cache_calls :: "stringerBitflagCache \<Rightarrow> uint64 list \<Rightarrow> error + stringerBitflagCache" where
  "cache_calls c [] = Inr c"
| "cache_calls c (m # ms) =
     (case cache_mstring c m of Inl e \<Rightarrow> Inl e | Inr (s, c') \<Rightarrow> cache_calls c' ms)"

text \<open>The variable \<^verbatim>\<open>_T_stringer\<close> as generated: the table and no map yet.\<close>

definition new_cache :: "stringerBitflag \<Rightarrow> stringerBitflagCache" where
  "new_cache t = \<lparr>sb = t, cached = None\<rparr>"

section \<open>A batch of types: \<^verbatim>\<open>genFile\<close>\<close>

text \<open>
  \<^verbatim>\<open>genFile\<close> runs \<^verbatim>\<open>generate\<close> for each type name in turn and writes the file after the
  last one. The constants of a type are given with its name. \<^verbatim>\<open>os.Exit\<close>, \<^verbatim>\<open>log.Fatalf\<close>
  and a panic end the process, so the first error is the result of the batch.
\<close>

fun generate_all ::
  "(Value list \<times> string) list \<Rightarrow> stringerBitflag list \<Rightarrow> error + stringerBitflag list" where
  "generate_all [] buf = Inr buf"
| "generate_all ((values, typeName) # rest) buf =
     (if length values = 0 then Inl (NoValues typeName)
      else (case buildBitflag values typeName of
              Inl e \<Rightarrow> Inl e
            | Inr t \<Rightarrow> generate_all rest (buf @ [t])))"

definition genFile :: "(Value list \<times> string) list \<Rightarrow> error + stringerBitflag list" where
  "genFile types = generate_all types []"

section \<open>Properties of tables\<close>

text \<open>
  The invariants of an encoded table: the non-zero offsets add up to the length of the
  blob, and there is one skip for every zero offset.
\<close>

definition wellformed :: "stringerBitflag \<Rightarrow> bool" where
  "wellformed t =
     (sum_list (map unat (filter (\<lambda>x. x \<noteq> 0) (offsets t))) = length (names t)
      \<and> length (skips t) = count_list (offsets t) 0)"

section \<open>Example inputs\<close>

text \<open>The constants of the golden test \<^verbatim>\<open>gap_in_bitflag\<close>, of type \<^verbatim>\<open>Gap int\<close>.\<close>

definition gap_in_bitflag :: "Value list" where
  "gap_in_bitflag =
     [\<lparr>name = ''Zero'', val = 0, signed = True\<rparr>,
      \<lparr>name = ''Two'', val = 4, signed = True\<rparr>,
      \<lparr>name = ''Three'', val = 8, signed = True\<rparr>,
      \<lparr>name = ''Five'', val = 32, signed = True\<rparr>,
      \<lparr>name = ''Six'', val = 64, signed = True\<rparr>,
      \<lparr>name = ''Seven'', val = 128, signed = True\<rparr>,
      \<lparr>name = ''Eight'', val = 256, signed = True\<rparr>,
      \<lparr>name = ''Nine'', val = 512, signed = True\<rparr>,
      \<lparr>name = ''Eleven'', val = 2048, signed = True\<rparr>]"

text \<open>The table the golden test expects for it (\<^verbatim>\<open>gap_out_bitflag_table\<close>).\<close>

definition gap_table :: stringerBitflag where
  "gap_table =
     \<lparr>typename = ''Gap'', zero = ''Zero'', names = ''TwoThreeFiveSixSevenEightNineEleven'',
      first = 4, offsets = [3, 5, 0, 4, 3, 5, 5, 4, 0, 6], skips = [1, 1]\<rparr>"

text \<open>A type whose smallest non-zero constant has two bits set.\<close>

definition multibit_in :: "Value list" where
  "multibit_in =
     [\<lparr>name = ''AB'', val = 3, signed = False\<rparr>,
      \<lparr>name = ''C'', val = 4, signed = False\<rparr>]"

text \<open>A type with one constant whose name is empty, as \<^verbatim>\<open>-trimprefix\<close> can leave it.\<close>

definition empty_name_in :: "Value list" where
  "empty_name_in = [\<lparr>name = [], val = 1, signed = False\<rparr>]"

definition long_name_in :: "Value list" where
  "long_name_in = [\<lparr>name = replicate 256 CHR ''a'', val = 1, signed = False\<rparr>]"

text \<open>The constants of the golden test \<^verbatim>\<open>days_in_bitflag\<close>, of type \<^verbatim>\<open>Days int\<close>, and their table.\<close>

definition days_in_bitflag :: "Value list" where
  "days_in_bitflag =
     [\<lparr>name = ''Monday'', val = 1, signed = True\<rparr>,
      \<lparr>name = ''Tuesday'', val = 2, signed = True\<rparr>,
      \<lparr>name = ''Wednesday'', val = 4, signed = True\<rparr>,
      \<lparr>name = ''Thursday'', val = 8, signed = True\<rparr>,
      \<lparr>name = ''Friday'', val = 16, signed = True\<rparr>,
      \<lparr>name = ''Saturday'', val = 32, signed = True\<rparr>,
      \<lparr>name = ''Sunday'', val = 64, signed = True\<rparr>]"

definition days_table :: stringerBitflag where
  "days_table =
     \<lparr>typename = ''Days'', zero = ''Days(0)'',
      names = ''MondayTuesdayWednesdayThursdayFridaySaturdaySunday'',
      first = 1, offsets = [6, 7, 9, 8, 6, 8, 6], skips = []\<rparr>"

text \<open>The runs of the partitioner for \<^verbatim>\<open>gap_in_bitflag\<close>: bits 2-3, 5-9 and 11.\<close>

definition gap_runs :: "Value list list" where
  "gap_runs =
     [[\<lparr>name = ''Two'', val = 4, signed = False\<rparr>,
       \<lparr>name = ''Three'', val = 8, signed = False\<rparr>],
      [\<lparr>name = ''Five'', val = 32, signed = False\<rparr>,
       \<lparr>name = ''Six'', val = 64, signed = False\<rparr>,
       \<lparr>name = ''Seven'', val = 128, signed = False\<rparr>,
       \<lparr>name = ''Eight'', val = 256, signed = False\<rparr>,
       \<lparr>name = ''Nine'', val = 512, signed = False\<rparr>],
      [\<lparr>name = ''Eleven'', val = 2048, signed = False\<rparr>]]"

text \<open>Two single-bit flags, the first with an empty name; the same with a gap between them.\<close>

definition empty_name_pair_in :: "Value list" where
  "empty_name_pair_in =
     [\<lparr>name = [], val = 1, signed = False\<rparr>,
      \<lparr>name = ''B'', val = 2, signed = False\<rparr>]"

definition empty_name_gap_in :: "Value list" where
  "empty_name_gap_in =
     [\<lparr>name = [], val = 1, signed = False\<rparr>,
      \<lparr>name = ''B'', val = 4, signed = False\<rparr>]"

text \<open>
  Types whose smallest constant has two bits set: followed by a run of two flags, and
  followed by a flag after a gap.
\<close>

definition multibit_run_in :: "Value list" where
  "multibit_run_in =
     [\<lparr>name = ''AB'', val = 3, signed = False\<rparr>,
      \<lparr>name = ''C'', val = 4, signed = False\<rparr>,
      \<lparr>name = ''D'', val = 8, signed = False\<rparr>]"

definition multibit_gap_in :: "Value list" where
  "multibit_gap_in =
     [\<lparr>name = ''AB'', val = 3, signed = False\<rparr>,
      \<lparr>name = ''C'', val = 8, signed = False\<rparr>]"

text \<open>The tables that \<^verbatim>\<open>buildBitflag\<close> builds for these inputs, with \<^verbatim>\<open>T\<close> as type name.\<close>

definition empty_name_table :: stringerBitflag where
  "empty_name_table =
     \<lparr>typename = ''T'', zero = ''T(0)'', names = [], first = 1, offsets = [0], skips = []\<rparr>"

definition empty_name_pair_table :: stringerBitflag where
  "empty_name_pair_table =
     \<lparr>typename = ''T'', zero = ''T(0)'', names = ''B'', first = 1, offsets = [0, 1],
      skips = []\<rparr>"

definition empty_name_gap_table :: stringerBitflag where
  "empty_name_gap_table =
     \<lparr>typename = ''T'', zero = ''T(0)'', names = ''B'', first = 1, offsets = [0, 0, 1],
      skips = [1]\<rparr>"

definition multibit_run_table :: stringerBitflag where
  "multibit_run_table =
     \<lparr>typename = ''T'', zero = ''T(0)'', names = ''ABCD'', first = 3, offsets = [2, 0, 1, 1],
      skips = [0]\<rparr>"

definition multibit_gap_table :: stringerBitflag where
  "multibit_gap_table =
     \<lparr>typename = ''T'', zero = ''T(0)'', names = ''ABC'', first = 3, offsets = [2, 0, 1],
      skips = [1]\<rparr>"

section \<open>What the builder's loops compute\<close>

text \<open>The offsets of a list of runs: the name lengths, with a 0 between two runs.\<close>

fun enc_offsets :: "Value list list \<Rightarrow> int list" where
  "enc_offsets [] = []"
| "enc_offsets [r] = map (\<lambda>x. int (length (name x))) r"
| "enc_offsets (r # r' # rs) = map (\<lambda>x. int (length (name x))) r @ [0] @ enc_offsets (r' # rs)"

text \<open>The skips of a list of runs: one shift count less one between two runs.\<close>

fun enc_skips :: "Value list list \<Rightarrow> int list" where
  "enc_skips [] = []"
| "enc_skips [r] = []"
| "enc_skips (r # r' # rs) =
     (the (shiftCount (val (last r)) (val (hd r'))) - 1) # enc_skips (r' # rs)"

section \<open>What a table encodes\<close>

text \<open>
  The flags of a table: the walk of \<^verbatim>\<open>mstring\<close> over the offsets without a mask, collecting
  the bit value under test and the slice of the blob at every name offset.
\<close>

fun table_flags_from ::
  "stringerBitflag \<Rightarrow> uint8 list \<Rightarrow> uint64 \<Rightarrow> nat \<Rightarrow> nat \<Rightarrow> error + (uint64 \<times> string) list" where
  "table_flags_from t [] v si p1 = Inr []"
| "table_flags_from t (o' # os) v si p1 =
     (if o' = 0 then
        (if si < length (skips t) then
           table_flags_from t os (push_bit 1 (push_bit (unat (skips t ! si - 1)) v)) (si + 1) p1
         else Inl IndexOutOfRange)
      else
        (case slice (names t) p1 (p1 + unat o') of
           Inl e \<Rightarrow> Inl e
         | Inr s \<Rightarrow>
             (case table_flags_from t os (push_bit 1 v) si (p1 + unat o') of
                Inl e \<Rightarrow> Inl e
              | Inr fl \<Rightarrow> Inr ((v, s) # fl))))"

definition table_flags :: "stringerBitflag \<Rightarrow> error + (uint64 \<times> string) list" where
  "table_flags t = table_flags_from t (offsets t) (first t) 0 0"

text \<open>
  The loop of \<^verbatim>\<open>mstring\<close> on a list of flags: a flag whose bits meet the mask is taken out
  of the mask and its name appended.
\<close>

fun decode_pairs :: "(uint64 \<times> string) list \<Rightarrow> uint64 \<Rightarrow> string \<Rightarrow> uint64 loop_result" where
  "decode_pairs [] m b = Exhausted b m"
| "decode_pairs ((v, s) # fl) m b =
     (if v AND m = 0 then decode_pairs fl m b
      else if m XOR v = 0 then Return (if b = [] then s else b @ ''|'' @ s @ '')'')
      else decode_pairs fl (m XOR v) ((if b = [] then ''('' else b @ ''|'') @ s))"

definition flag_pairs :: "Value list \<Rightarrow> (uint64 \<times> string) list" where
  "flag_pairs fs = map (\<lambda>x. (val x, name x)) fs"

section \<open>Runs of single-bit flags\<close>

text \<open>A run whose values are \<^verbatim>\<open>v\<close>, \<^verbatim>\<open>v<<1\<close>, \<^verbatim>\<open>v<<2\<close> and so on.\<close>

fun chained_from :: "uint64 \<Rightarrow> Value list \<Rightarrow> bool" where
  "chained_from v [] = True"
| "chained_from v (x # xs) = (val x = v \<and> chained_from (push_bit 1 v) xs)"

text \<open>A run that is not empty and is chained.\<close>

definition good_run :: "Value list \<Rightarrow> bool" where
  "good_run r = (r \<noteq> [] \<and> chained_from (val (hd r)) r)"

text \<open>Two single bits with at least one bit position between them.\<close>

definition gap_ok :: "uint64 \<Rightarrow> uint64 \<Rightarrow> bool" where
  "gap_ok a b = (\<exists>i \<in> {..<64}. \<exists>j \<in> {..<64}. a = 2 ^ i \<and> b = 2 ^ j \<and> i + 2 \<le> j)"

fun good_runs :: "Value list list \<Rightarrow> bool" where
  "good_runs [] = False"
| "good_runs [r] = good_run r"
| "good_runs (r # r' # rs) =
     (good_run r \<and> gap_ok (val (last r)) (val (hd r')) \<and> good_runs (r' # rs))"

section \<open>What the filter loop keeps\<close>

text \<open>
  The elements after \<^verbatim>\<open>prev\<close> that the filter of \<^verbatim>\<open>splitIntoBitflagRuns\<close> keeps: those that
  differ from their predecessor in the sorted slice and have a single bit set.
\<close>

fun kept :: "Value \<Rightarrow> Value list \<Rightarrow> Value list" where
  "kept prev [] = []"
| "kept prev (x # xs) =
     (if val x \<noteq> val prev \<and> singleBitSet (val x) then x # kept x xs else kept x xs)"

section \<open>The builder's output\<close>

lemma nameAndRest_run_Inr:
  assumes "nameAndRest_run run (ns, os) = Inr (ns', os')"
  shows "ns' = ns @ map name run \<and> os' = os @ map (\<lambda>x. int (length (name x))) run
         \<and> (\<forall>x\<in>set run. length (name x) \<le> 255)"
  using assms
proof (induction run arbitrary: ns os)
  case Nil
  then show ?case by simp
next
  case (Cons x xs)
  from Cons.prems have le: "length (name x) \<le> 255"
    by (simp add: Let_def split: if_splits)
  with Cons.prems have "nameAndRest_run xs (ns @ [name x], os @ [int (length (name x))]) = Inr (ns', os')"
    by (simp add: Let_def)
  from Cons.IH [OF this] le show ?case by simp
qed

lemma nameAndRest_run_long:
  assumes "x \<in> set run" and "255 < length (name x)"
  shows "\<exists>n s. nameAndRest_run run acc = Inl (NameTooLong n s) \<and> 255 < n"
  using assms
proof (induction run arbitrary: acc)
  case Nil
  then show ?case by simp
next
  case (Cons y ys)
  obtain ns os where acc: "acc = (ns, os)" by (cases acc)
  show ?case
  proof (cases "255 < length (name y)")
    case True
    then show ?thesis by (simp add: acc Let_def)
  next
    case False
    with Cons.prems have "x \<in> set ys" by auto
    from Cons.IH [OF this Cons.prems(2)] False show ?thesis
      by (simp add: acc Let_def)
  qed
qed

lemma nameAndRest_loop_Inr:
  assumes "nameAndRest_loop runs (ns, os, ss) = Inr (ns', os', ss')"
  shows "ns' = ns @ map name (concat runs) \<and> os' = os @ enc_offsets runs
         \<and> ss' = ss @ enc_skips runs
         \<and> (\<forall>x\<in>set (concat runs). length (name x) \<le> 255)"
  using assms
proof (induction runs arbitrary: ns os ss)
  case Nil
  then show ?case by simp
next
  case (Cons run rest)
  from Cons.prems obtain ns1 os1 where
    run: "nameAndRest_run run (ns, os) = Inr (ns1, os1)"
    by (auto split: sum.splits)
  note r = nameAndRest_run_Inr [OF run]
  show ?case
  proof (cases rest)
    case Nil
    with Cons.prems run r show ?thesis by simp
  next
    case (Cons nxt rest')
    with Cons.prems run obtain c lst nxt0 nxt' where
      rec: "nameAndRest_loop rest (ns1, os1 @ [0], ss @ [c - 1]) = Inr (ns', os', ss')"
      and l: "runLastValue run = Inr lst" and n: "nxt = nxt0 # nxt'"
      and c: "shiftCount (val lst) (val nxt0) = Some c"
      by (auto split: sum.splits list.splits option.splits)
    from l have "run \<noteq> []" and "lst = run ! (length run - 1)"
      by (auto simp: runLastValue_def split: if_splits)
    then have "lst = last run" by (simp add: last_conv_nth)
    with c n have "the (shiftCount (val (last run)) (val (hd nxt))) - 1 = c - 1" by simp
    with Cons.IH [OF rec] r Cons show ?thesis by auto
  qed
qed

lemma nameAndRest_Inr:
  assumes "nameAndRest runs = Inr (nm, os, ss)"
  shows "nm = concat (map name (concat runs)) \<and> os = enc_offsets runs
         \<and> ss = enc_skips runs
         \<and> (\<forall>x\<in>set (concat runs). length (name x) \<le> 255)"
proof -
  from assms obtain ns where
    "nameAndRest_loop runs ([], [], []) = Inr (ns, os, ss)" and "nm = concat ns"
    by (auto simp: nameAndRest_def split: sum.splits)
  from nameAndRest_loop_Inr [OF this(1)] this(2) show ?thesis by simp
qed

lemma length_enc_skips: "length (enc_skips runs) = length runs - 1"
  by (induction runs rule: enc_skips.induct) simp_all

lemma uint8_literals_Inr:
  assumes "uint8_literals xs = Inr ws"
  shows "ws = map word_of_int xs"
  using assms by (induction xs arbitrary: ws) (auto split: if_splits sum.splits)

lemma sum_list_name_lengths:
  "sum_list (map (\<lambda>x. int (length (name x))) r) = int (length (concat (map name r)))"
  by (induction r) simp_all

lemma sum_list_enc_offsets:
  "sum_list (enc_offsets runs) = int (length (concat (map name (concat runs))))"
  by (induction runs rule: enc_offsets.induct) (simp_all add: sum_list_name_lengths)

lemma sum_list_filter_nonzero: "sum_list (filter (\<lambda>x. x \<noteq> 0) xs) = sum_list (xs :: int list)"
  by (induction xs) simp_all

lemma count_enc_offsets:
  assumes "\<forall>x\<in>set (concat runs). name x \<noteq> []"
  shows "count_list (enc_offsets runs) 0 = length runs - 1"
  using assms
proof (induction runs rule: enc_offsets.induct)
  case 1
  then show ?case by simp
next
  case (2 r)
  then have "\<forall>x\<in>set r. int (length (name x)) \<noteq> 0" by simp
  then have "count_list (map (\<lambda>x. int (length (name x))) r) 0 = 0"
    by (induction r) simp_all
  then show ?case by simp
next
  case (3 r r' rs)
  then have "\<forall>x\<in>set r. int (length (name x)) \<noteq> 0" by simp
  then have "count_list (map (\<lambda>x. int (length (name x))) r) 0 = 0"
    by (induction r) simp_all
  with 3 show ?case by simp
qed

section \<open>One step of the decode loop\<close>

lemma mstring_loop_gap:
  "si < length (skips t) \<Longrightarrow>
   mstring_loop t (0 # os) v si p1 m b =
   mstring_loop t os (push_bit 1 (push_bit (unat (skips t ! si - 1)) v)) (si + 1) p1 m b"
  by simp

lemma mstring_loop_gap_fail:
  "\<not> si < length (skips t) \<Longrightarrow> mstring_loop t (0 # os) v si p1 m b = Inl IndexOutOfRange"
  by simp

lemma mstring_loop_absent:
  "a \<noteq> 0 \<Longrightarrow> v AND m = 0 \<Longrightarrow>
   mstring_loop t (a # os) v si p1 m b = mstring_loop t os (push_bit 1 v) si (p1 + unat a) m b"
  by (simp add: Let_def)

lemma mstring_loop_match:
  "a \<noteq> 0 \<Longrightarrow> v AND m \<noteq> 0 \<Longrightarrow>
   mstring_loop t (a # os) v si p1 m b =
     (case slice (names t) p1 (p1 + unat a) of
        Inl e \<Rightarrow> Inl e
      | Inr s \<Rightarrow>
          if m XOR v = 0 then Inr (Return (if b = [] then s else b @ ''|'' @ s @ '')''))
          else mstring_loop t os (push_bit 1 v) si (p1 + unat a) (m XOR v)
                 ((if b = [] then ''('' else b @ ''|'') @ s))"
  by (simp add: Let_def split: sum.splits)

lemma WithSkips_loop_gap:
  "si < length (skips t) \<Longrightarrow>
   stringBitflagCodeWithSkips_loop t (0 # os) v si p1 m b =
   stringBitflagCodeWithSkips_loop t os (push_bit 1 (push_bit (unat (skips t ! si - 1)) v))
     (si + 1) p1 m b"
  by simp

lemma WithSkips_loop_gap_fail:
  "\<not> si < length (skips t) \<Longrightarrow>
   stringBitflagCodeWithSkips_loop t (0 # os) v si p1 m b = Inl IndexOutOfRange"
  by simp

lemma WithSkips_loop_absent:
  "a \<noteq> 0 \<Longrightarrow> v AND m = 0 \<Longrightarrow>
   stringBitflagCodeWithSkips_loop t (a # os) v si p1 m b =
   stringBitflagCodeWithSkips_loop t os (push_bit 1 v) si (p1 + unat a) m b"
  by (simp add: Let_def)

lemma WithSkips_loop_match:
  "a \<noteq> 0 \<Longrightarrow> v AND m \<noteq> 0 \<Longrightarrow>
   stringBitflagCodeWithSkips_loop t (a # os) v si p1 m b =
     (case slice (names t) p1 (p1 + unat a) of
        Inl e \<Rightarrow> Inl e
      | Inr s \<Rightarrow>
          if m XOR v = 0 then Inr (Return (if b = [] then s else b @ ''|'' @ s @ '')''))
          else stringBitflagCodeWithSkips_loop t os (push_bit 1 v) si (p1 + unat a) (m XOR v)
                 ((if b = [] then ''('' else b @ ''|'') @ s))"
  by (simp add: Let_def split: sum.splits)

lemma noskips_loop_absent:
  "v AND m = 0 \<Longrightarrow>
   stringBitflagCode_loop t (a # os) v p1 m b =
   stringBitflagCode_loop t os (push_bit 1 v) (p1 + unat a) m b"
  by (simp add: Let_def)

lemma noskips_loop_match:
  "v AND m \<noteq> 0 \<Longrightarrow>
   stringBitflagCode_loop t (a # os) v p1 m b =
     (case slice (names t) p1 (p1 + unat a) of
        Inl e \<Rightarrow> Inl e
      | Inr s \<Rightarrow>
          if m XOR v = 0 then Inr (Return (if b = [] then s else b @ ''|'' @ s @ '')''))
          else stringBitflagCode_loop t os (push_bit 1 v) (p1 + unat a) (m XOR v)
                 ((if b = [] then ''('' else b @ ''|'') @ s))"
  by (simp add: Let_def split: sum.splits)

declare mstring_loop.simps(2) [simp del]
declare stringBitflagCodeWithSkips_loop.simps(2) [simp del]
declare stringBitflagCode_loop.simps(2) [simp del]

section \<open>The decode loop returns\<close>

lemma sum_unat_filter_nonzero:
  "sum_list (map unat (filter (\<lambda>x. x \<noteq> 0) os)) = sum_list (map unat (os :: uint8 list))"
  by (induction os) simp_all

lemma mstring_loop_total:
  assumes "si + count_list os 0 \<le> length (skips t)"
    and "p1 + sum_list (map unat os) \<le> length (names t)"
  shows "\<exists>r. mstring_loop t os v si p1 m b = Inr r"
  using assms
proof (induction os arbitrary: v si p1 m b)
  case Nil
  then show ?case by simp
next
  case (Cons a os)
  show ?case
  proof (cases "a = 0")
    case True
    with Cons.prems have si: "si < length (skips t)"
      and "(si + 1) + count_list os 0 \<le> length (skips t)"
      and "p1 + sum_list (map unat os) \<le> length (names t)"
      by simp_all
    from Cons.IH [OF this(2,3)] si True show ?thesis
      by (simp add: mstring_loop_gap)
  next
    case False
    with Cons.prems have c: "si + count_list os 0 \<le> length (skips t)"
      and p: "(p1 + unat a) + sum_list (map unat os) \<le> length (names t)"
      by simp_all
    then have s: "slice (names t) p1 (p1 + unat a)
                  = Inr (take (p1 + unat a - p1) (drop p1 (names t)))"
      by (simp add: slice_def)
    note IH = Cons.IH [OF c p]
    show ?thesis
    proof (cases "v AND m = 0")
      case True
      with False IH show ?thesis by (simp add: mstring_loop_absent)
    next
      case nz: False
      show ?thesis
      proof (cases "m XOR v = 0")
        case True
        with False nz s show ?thesis by (simp add: mstring_loop_match)
      next
        case False2: False
        from IH [of "push_bit 1 v" "m XOR v"] False nz False2 s show ?thesis
          by (simp add: mstring_loop_match)
      qed
    qed
  qed
qed

lemma mstring_loop_Exhausted_nonzero:
  assumes "mstring_loop t os v si p1 m b = Inr (Exhausted b' m')" and "m \<noteq> 0"
  shows "m' \<noteq> 0"
  using assms
proof (induction os arbitrary: v si p1 m b)
  case Nil
  then show ?case by simp
next
  case (Cons a os)
  show ?case
  proof (cases "a = 0")
    case True
    show ?thesis
    proof (cases "si < length (skips t)")
      case si: True
      with True Cons.prems(1) have
        "mstring_loop t os (push_bit 1 (push_bit (unat (skips t ! si - 1)) v))
           (si + 1) p1 m b = Inr (Exhausted b' m')"
        by (simp add: mstring_loop_gap)
      from Cons.IH [OF this Cons.prems(2)] show ?thesis .
    next
      case False
      with True Cons.prems(1) show ?thesis by (simp add: mstring_loop_gap_fail)
    qed
  next
    case False
    show ?thesis
    proof (cases "v AND m = 0")
      case True
      with False Cons.prems(1) have
        "mstring_loop t os (push_bit 1 v) si (p1 + unat a) m b = Inr (Exhausted b' m')"
        by (simp add: mstring_loop_absent)
      from Cons.IH [OF this Cons.prems(2)] show ?thesis .
    next
      case nz: False
      show ?thesis
      proof (cases "slice (names t) p1 (p1 + unat a)")
        case (Inl e)
        with False nz Cons.prems(1) show ?thesis by (simp add: mstring_loop_match)
      next
        case (Inr s)
        show ?thesis
        proof (cases "m XOR v = 0")
          case True
          with False nz Inr Cons.prems(1) show ?thesis by (simp add: mstring_loop_match)
        next
          case False2: False
          with False nz Inr Cons.prems(1) have
            "mstring_loop t os (push_bit 1 v) si (p1 + unat a) (m XOR v)
               ((if b = [] then ''('' else b @ ''|'') @ s) = Inr (Exhausted b' m')"
            by (simp add: mstring_loop_match)
          from Cons.IH [OF this False2] show ?thesis .
        qed
      qed
    qed
  qed
qed

section \<open>The generic routine and the per-type routines\<close>

lemma WithSkips_loop_eq:
  "stringBitflagCodeWithSkips_loop t os v si p1 m b = mstring_loop t os v si p1 m b"
proof (induction os arbitrary: v si p1 m b)
  case Nil
  show ?case by simp
next
  case (Cons a os)
  show ?case
  proof (cases "a = 0")
    case True
    then show ?thesis
      by (cases "si < length (skips t)")
        (simp_all add: mstring_loop_gap WithSkips_loop_gap mstring_loop_gap_fail
          WithSkips_loop_gap_fail Cons.IH)
  next
    case False
    then show ?thesis
      by (cases "v AND m = 0")
        (simp_all add: mstring_loop_absent WithSkips_loop_absent mstring_loop_match
          WithSkips_loop_match Cons.IH split: sum.splits)
  qed
qed

lemma noskips_loop_eq:
  assumes "0 \<notin> set os"
  shows "stringBitflagCode_loop t os v p1 m b = mstring_loop t os v si p1 m b"
  using assms
proof (induction os arbitrary: v p1 m b)
  case Nil
  show ?case by simp
next
  case (Cons a os)
  then have a: "a \<noteq> 0" and IH: "\<And>v p1 m b.
      stringBitflagCode_loop t os v p1 m b = mstring_loop t os v si p1 m b"
    by auto
  from a show ?case
    by (cases "v AND m = 0")
      (simp_all add: mstring_loop_absent noskips_loop_absent mstring_loop_match
        noskips_loop_match IH split: sum.splits)
qed

section \<open>The zero name\<close>

lemma set_insert_stable: "set (insert_stable lt x ys) = insert x (set ys)"
  by (induction ys) auto

lemma set_sort_Stable: "set (sort_Stable lt xs) = set xs"
  by (induction xs) (simp_all add: sort_Stable_def set_insert_stable)

lemma sort_Stable_Cons: "sort_Stable lt (x # xs) = insert_stable lt x (sort_Stable lt xs)"
  by (simp add: sort_Stable_def)

lemma sort_Stable_zero_first:
  assumes "\<forall>x\<in>set vs. \<not> signed x"
  shows "case find (\<lambda>v. val v = 0) vs of
           None \<Rightarrow> \<forall>x\<in>set (sort_Stable byValue_Less vs). val x \<noteq> 0
         | Some z \<Rightarrow> \<exists>r. sort_Stable byValue_Less vs = z # r"
  using assms
proof (induction vs)
  case Nil
  show ?case by (simp add: sort_Stable_def)
next
  case (Cons x xs)
  let ?s = "sort_Stable byValue_Less xs"
  from Cons.prems have uns: "\<forall>y\<in>set ?s. \<not> signed y" and ux: "\<not> signed x"
    by (simp_all add: set_sort_Stable)
  show ?case
  proof (cases "val x = 0")
    case True
    have "\<exists>r. insert_stable byValue_Less x ?s = x # r"
    proof (cases ?s)
      case Nil
      then show ?thesis by simp
    next
      case (Cons y ys)
      with uns have "\<not> signed y" by simp
      then have "\<not> byValue_Less y x" using True by (simp add: byValue_Less_def)
      with Cons show ?thesis by simp
    qed
    with True show ?thesis by (simp add: sort_Stable_Cons)
  next
    case False
    show ?thesis
    proof (cases "find (\<lambda>v. val v = 0) xs")
      case None
      with Cons.IH Cons.prems have "\<forall>y\<in>set ?s. val y \<noteq> 0" by simp
      with False None show ?thesis by (simp add: sort_Stable_Cons set_insert_stable)
    next
      case (Some z)
      with Cons.IH Cons.prems obtain r where r: "?s = z # r" by auto
      from Some have z0: "val z = 0" by (auto simp: find_Some_iff)
      from r uns have "\<not> signed z" by simp
      with z0 False have "byValue_Less z x"
        by (simp add: byValue_Less_def word_neq_0_conv)
      with r False Some show ?thesis by (simp add: sort_Stable_Cons)
    qed
  qed
qed

lemma splitIntoBitflagRuns_zero:
  assumes "splitIntoBitflagRuns vals = Inr (z, runs)"
  shows "z = map_option (\<lambda>v. v\<lparr>signed := False\<rparr>) (find (\<lambda>v. val v = 0) vals)"
proof -
  let ?v1 = "map (\<lambda>v. v\<lparr>signed := False\<rparr>) vals"
  let ?v2 = "sort_Stable byValue_Less ?v1"
  have f: "find (\<lambda>v. val v = 0) ?v1
           = map_option (\<lambda>v. v\<lparr>signed := False\<rparr>) (find (\<lambda>v. val v = 0) vals)"
    by (induction vals) simp_all
  have "\<forall>x\<in>set ?v1. \<not> signed x" by simp
  note s = sort_Stable_zero_first [OF this]
  from assms obtain v0 rest where v2: "?v2 = v0 # rest"
    by (auto simp: splitIntoBitflagRuns_def Let_def split: list.splits)
  show ?thesis
  proof (cases "find (\<lambda>v. val v = 0) ?v1")
    case None
    with s v2 have "val v0 \<noteq> 0" by simp
    with assms v2 have "z = None"
      by (auto simp: splitIntoBitflagRuns_def Let_def split: prod.splits)
    with None f show ?thesis by auto
  next
    case (Some z')
    with s v2 have "v0 = z'" by simp
    moreover from Some have "val z' = 0" by (auto simp: find_Some_iff)
    ultimately have "z = Some z'" using assms v2
      by (auto simp: splitIntoBitflagRuns_def Let_def split: prod.splits sum.splits)
    with Some f show ?thesis by auto
  qed
qed

lemma buildBitflag_zero:
  assumes "buildBitflag vals typeName = Inr t"
  shows "zero t = (case find (\<lambda>v. val v = 0) vals of
                     None \<Rightarrow> typeName @ ''(0)'' | Some z \<Rightarrow> name z)"
proof -
  from assms obtain z runs where sp: "splitIntoBitflagRuns vals = Inr (z, runs)"
    and zt: "zero t = (case z of None \<Rightarrow> typeName @ ''(0)'' | Some z' \<Rightarrow> name z')"
    by (auto simp: buildBitflag_def Let_def split: sum.splits list.splits prod.splits)
  from splitIntoBitflagRuns_zero [OF sp] zt show ?thesis
    by (cases "find (\<lambda>v. val v = 0) vals") simp_all
qed

section \<open>The cache\<close>

lemma mstring_Inr:
  assumes "wellformed t"
  shows "\<exists>s. mstring t m = Inr s"
proof (cases "m = 0")
  case True
  then show ?thesis by (simp add: mstring_def)
next
  case False
  from assms have "0 + count_list (offsets t) 0 \<le> length (skips t)"
    and "0 + sum_list (map unat (offsets t)) \<le> length (names t)"
    by (simp_all add: wellformed_def sum_unat_filter_nonzero)
  from mstring_loop_total [OF this, of "first t" m "[]"] obtain r where
    "mstring_loop t (offsets t) (first t) 0 0 m [] = Inr r" by blast
  with False show ?thesis by (simp add: mstring_def)
qed

lemma cache_len_keys: "cache_len c = fcard (cache_keys c)"
  by (simp add: cache_len_def cache_keys_def split: option.splits)

lemma cache_len_new: "cache_len (new_cache t) = 0"
  by (simp add: cache_len_def new_cache_def)

lemma cache_insert_reset:
  assumes "capCache \<le> cache_len c"
  shows "cached (cache_insert c m s) = Some (fmupd m s fmempty)"
    and "cache_len (cache_insert c m s) = 1"
  using assms
  by (auto simp: cache_insert_def cache_len_def capCache_def fcard_finsert_if split: option.splits)

lemma cache_insert_keys:
  assumes "cache_len c < capCache"
  shows "cache_keys (cache_insert c m s) = finsert m (cache_keys c)"
  using assms
  by (auto simp: cache_insert_def cache_len_def cache_keys_def split: option.splits)

lemma cache_insert_bound:
  assumes "cache_len c \<le> capCache"
  shows "cache_len (cache_insert c m s) \<le> capCache"
proof (cases "capCache \<le> cache_len c")
  case True
  from cache_insert_reset(2) [OF this] show ?thesis by (simp add: capCache_def)
next
  case False
  then have lt: "cache_len c < capCache" by simp
  have "fcard (finsert m (cache_keys c)) \<le> Suc (fcard (cache_keys c))"
    by (simp add: fcard_finsert_if)
  with lt cache_insert_keys [OF lt] show ?thesis by (simp add: cache_len_keys)
qed

lemma cache_insert_sb: "sb (cache_insert c m s) = sb c"
  by (simp add: cache_insert_def Let_def)

lemma cache_lookup_miss: "\<not> snd (cache_lookup c m) \<longleftrightarrow> m |\<notin>| cache_keys c"
  by (auto simp: cache_lookup_def cache_keys_def fmlookup_dom_iff split: option.splits)

lemma cache_mstring_cases:
  assumes "cache_mstring c m = Inr (s, c')"
  shows "c' = c \<or> (m \<noteq> 0 \<and> \<not> snd (cache_lookup c m) \<and> mstring (sb c) m = Inr s
                   \<and> c' = cache_insert c m s)"
  using assms
  by (auto simp: cache_mstring_def Let_def split: if_splits prod.splits sum.splits)

lemma cache_mstring_miss:
  assumes "m \<noteq> 0" and "\<not> snd (cache_lookup c m)"
  shows "cache_mstring c m =
           (case mstring (sb c) m of Inl e \<Rightarrow> Inl e | Inr s \<Rightarrow> Inr (s, cache_insert c m s))"
  using assms by (auto simp: cache_mstring_def Let_def split: prod.splits)

lemma cache_mstring_bound:
  assumes "cache_mstring c m = Inr (s, c')" and "cache_len c \<le> capCache"
  shows "cache_len c' \<le> capCache"
  using cache_mstring_cases [OF assms(1)] assms(2) cache_insert_bound by auto

lemma cache_calls_bound:
  assumes "cache_calls c ms = Inr c'" and "cache_len c \<le> capCache"
  shows "cache_len c' \<le> capCache"
  using assms
proof (induction ms arbitrary: c)
  case Nil
  then show ?case by simp
next
  case (Cons m ms)
  from Cons.prems(1) obtain s c1 where
    1: "cache_mstring c m = Inr (s, c1)" and 2: "cache_calls c1 ms = Inr c'"
    by (auto split: sum.splits)
  from Cons.IH [OF 2 cache_mstring_bound [OF 1 Cons.prems(2)]] show ?case .
qed

lemma cache_calls_fill:
  assumes "wellformed (sb c)" and "distinct ms" and "0 \<notin> set ms"
    and "\<forall>m\<in>set ms. m |\<notin>| cache_keys c"
    and "cache_len c + length ms \<le> capCache"
  shows "\<exists>c'. cache_calls c ms = Inr c' \<and> sb c' = sb c
              \<and> cache_keys c' = cache_keys c |\<union>| fset_of_list ms
              \<and> cache_len c' = cache_len c + length ms"
  using assms
proof (induction ms arbitrary: c)
  case Nil
  then show ?case by simp
next
  case (Cons m ms)
  from Cons.prems have m0: "m \<noteq> 0" and miss: "m |\<notin>| cache_keys c"
    and lt: "cache_len c < capCache" by auto
  from mstring_Inr [OF Cons.prems(1)] obtain s where s: "mstring (sb c) m = Inr s" by blast
  let ?c1 = "cache_insert c m s"
  from miss have "\<not> snd (cache_lookup c m)" by (simp add: cache_lookup_miss)
  from cache_mstring_miss [OF m0 this] s have step: "cache_mstring c m = Inr (s, ?c1)" by simp
  have keys: "cache_keys ?c1 = finsert m (cache_keys c)" by (rule cache_insert_keys [OF lt])
  with miss have len: "cache_len ?c1 = Suc (cache_len c)"
    by (simp add: cache_len_keys fcard_finsert_if)
  have "wellformed (sb ?c1)" using Cons.prems(1) by (simp add: cache_insert_sb)
  moreover have "distinct ms" and "0 \<notin> set ms" using Cons.prems by auto
  moreover have "\<forall>m'\<in>set ms. m' |\<notin>| cache_keys ?c1" using Cons.prems keys by auto
  moreover have "cache_len ?c1 + length ms \<le> capCache" using Cons.prems len by simp
  ultimately obtain c' where "cache_calls ?c1 ms = Inr c'" and "sb c' = sb ?c1"
    and "cache_keys c' = cache_keys ?c1 |\<union>| fset_of_list ms"
    and "cache_len c' = cache_len ?c1 + length ms"
    using Cons.IH [of ?c1] by blast
  with step keys len show ?case by (auto simp: cache_insert_sb)
qed

lemma masks_1_to_256:
  "distinct (map (of_nat :: nat \<Rightarrow> uint64) [1..<257])"
  "(0 :: uint64) \<notin> set (map of_nat [1..<257])"
  "(257 :: uint64) \<notin> set (map of_nat [1..<257])"
proof -
  have inj: "inj_on (of_nat :: nat \<Rightarrow> uint64) {1..<257}"
  proof (rule inj_onI)
    fix x y :: nat
    assume "x \<in> {1..<257}" "y \<in> {1..<257}" "(of_nat x :: uint64) = of_nat y"
    then have "unat (of_nat x :: uint64) = unat (of_nat y :: uint64)" and "x < 2 ^ 64" "y < 2 ^ 64"
      by simp_all
    then show "x = y" by (simp add: unat_of_nat)
  qed
  then show "distinct (map (of_nat :: nat \<Rightarrow> uint64) [1..<257])"
    by (simp add: distinct_map)
  have "unat (of_nat x :: uint64) = x" if "x < 257" for x
    using that by (simp add: unat_of_nat)
  then have u: "unat (of_nat x :: uint64) \<noteq> 0 \<and> unat (of_nat x :: uint64) \<noteq> 257"
    if "x \<in> {1..<257}" for x using that by simp
  show "(0 :: uint64) \<notin> set (map of_nat [1..<257])"
  proof
    assume "(0 :: uint64) \<in> set (map of_nat [1..<257])"
    then obtain x where "x \<in> {1..<257}" "(of_nat x :: uint64) = 0" by auto
    with u [of x] show False by simp
  qed
  show "(257 :: uint64) \<notin> set (map of_nat [1..<257])"
  proof
    assume "(257 :: uint64) \<in> set (map of_nat [1..<257])"
    then obtain x where "x \<in> {1..<257}" "(of_nat x :: uint64) = 257" by auto
    with u [of x] show False by simp
  qed
qed

section \<open>A batch of types\<close>

lemma generate_all_append:
  assumes "generate_all pre buf = Inr buf'"
  shows "generate_all (pre @ rest) buf = generate_all rest buf'"
  using assms
proof (induction pre arbitrary: buf)
  case Nil
  then show ?case by simp
next
  case (Cons p pre)
  obtain vs tn where p: "p = (vs, tn)" by (cases p)
  from Cons.prems p obtain t where "vs \<noteq> []" and "buildBitflag vs tn = Inr t"
    and "generate_all pre (buf @ [t]) = Inr buf'"
    by (auto split: if_splits sum.splits)
  with Cons.IH [of "buf @ [t]"] p show ?case by simp
qed

lemma buildBitflag_Inr_names:
  assumes "buildBitflag vs tn = Inr t" and "splitIntoBitflagRuns vs = Inr (z, runs)"
  shows "\<forall>x\<in>set (concat runs). length (name x) \<le> 255"
proof -
  from assms obtain nm os ss where "nameAndRest runs = Inr (nm, os, ss)"
    by (auto simp: buildBitflag_def Let_def split: sum.splits list.splits prod.splits)
  from nameAndRest_Inr [OF this] show ?thesis by simp
qed

lemma splitIntoBitflagRuns_Nil: "splitIntoBitflagRuns [] = Inl IndexOutOfRange"
  by (simp add: splitIntoBitflagRuns_def sort_Stable_def)

section \<open>Single bits and shift counts\<close>

lemma nat_single_bit:
  fixes n :: nat
  assumes "0 < n" and "n AND (n - 1) = 0"
  shows "\<exists>k. n = 2 ^ k"
  using assms
proof (induction n rule: less_induct)
  case (less n)
  show ?case
  proof (cases "even n")
    case True
    with less.prems obtain h where h: "n = 2 * h" "0 < h" by (auto elim: evenE)
    then have d: "(n - 1) div 2 = h - 1" and o: "odd (n - 1)" by auto
    from less.prems(2) have "(n AND (n - 1)) div 2 = 0" by simp
    then have "h AND (h - 1) = 0"
      using h d by (subst (asm) and_nat_rec) simp
    with less.IH [of h] h obtain k where "h = 2 ^ k" by auto
    with h have "n = 2 ^ Suc k" by simp
    then show ?thesis by blast
  next
    case False
    then have d: "(n - 1) div 2 = n div 2" and e: "even (n - 1)" by (auto elim: oddE)
    from less.prems(2) have "(n AND (n - 1)) div 2 = 0" by simp
    then have "n div 2 AND n div 2 = 0"
      using d by (subst (asm) and_nat_rec) simp
    then have "n div 2 = 0" by simp
    with False have "n = 1" by (auto elim: oddE)
    then have "n = 2 ^ 0" by simp
    then show ?thesis by blast
  qed
qed

lemma singleBitSet_power:
  assumes "singleBitSet v"
  shows "\<exists>k<64. v = 2 ^ k"
proof -
  from assms have nz: "v \<noteq> 0" and a: "v AND (v - 1) = 0" by (simp_all add: singleBitSet_def)
  from nz have pos: "0 < unat v" by (simp add: unat_gt_0)
  from a have "unat (v AND (v - 1)) = 0" by simp
  then have "unat v AND unat (v - 1) = 0" by (simp add: unsigned_and_eq)
  with nz have "unat v AND (unat v - 1) = 0" by (simp add: unat_minus_one)
  from nat_single_bit [OF pos this] obtain k where k: "unat v = 2 ^ k" by blast
  have "unat v < 2 ^ LENGTH(64)" by (rule unsigned_less)
  then have "(2::nat) ^ k < 2 ^ 64" unfolding k by simp
  then have k64: "k < 64" by (rule power_less_imp_less_exp [rotated]) simp
  have "v = of_nat (unat v)" by simp
  with k have "v = 2 ^ k" by simp
  with k64 show ?thesis by blast
qed

lemma unat_power2:
  assumes "k < 64"
  shows "unat ((2 :: uint64) ^ k) = 2 ^ k"
proof -
  have "(2 :: uint64) ^ k = of_nat (2 ^ k)" by simp
  then have u: "unat ((2 :: uint64) ^ k) = 2 ^ k mod 2 ^ 64" by (simp only: unat_of_nat) simp
  from assms have "(2 :: nat) ^ k < 2 ^ 64" by (rule power_strict_increasing) simp
  then have "(2 :: nat) ^ k mod 2 ^ 64 = 2 ^ k" by (rule mod_less)
  with u show ?thesis by (simp only:)
qed

lemma shiftCount_loop_power:
  assumes "a \<le> b" and "b < 64"
  shows "shiftCount_loop (2 ^ a) (2 ^ b) c = Some (c + int (b - a))"
  using assms
proof (induction "b - a" arbitrary: a c)
  case 0
  then have "a = b" by simp
  then show ?case by (subst shiftCount_loop.simps) simp
next
  case (Suc d)
  then have lt: "a < b" and d: "d = b - Suc a" and le: "Suc a \<le> b" by simp_all
  from lt Suc.prems(2) have "(2 :: uint64) ^ a < 2 ^ b"
    by (simp add: word_less_nat_alt unat_power2)
  moreover have "push_bit 1 ((2 :: uint64) ^ a) = 2 ^ Suc a" by (simp add: push_bit_eq_mult)
  ultimately have "shiftCount_loop (2 ^ a) (2 ^ b) c = shiftCount_loop (2 ^ Suc a) (2 ^ b) (c + 1)"
    by (subst shiftCount_loop.simps) (simp only: if_True)
  also from Suc.hyps(1) [OF d le Suc.prems(2)]
  have "\<dots> = Some (c + 1 + int (b - Suc a))" .
  finally show ?case using lt by simp
qed

lemma shiftCount_power:
  assumes "a \<le> b" and "b < 64"
  shows "shiftCount (2 ^ a) (2 ^ b) = Some (int (b - a))"
  using shiftCount_loop_power [OF assms, of 0] by (simp add: shiftCount_def)

lemma power2_less_iff:
  assumes "a < 64" and "b < 64"
  shows "(2 :: uint64) ^ a < 2 ^ b \<longleftrightarrow> a < b"
  using assms by (simp add: word_less_nat_alt unat_power2)

lemma power2_eq_iff:
  assumes "a < 64" and "b < 64"
  shows "(2 :: uint64) ^ a = 2 ^ b \<longleftrightarrow> a = b"
proof
  assume "(2 :: uint64) ^ a = 2 ^ b"
  then have "unat ((2 :: uint64) ^ a) = unat ((2 :: uint64) ^ b)" by simp
  with assms show "a = b" by (simp add: unat_power2)
qed simp

lemma power2_neq_0:
  assumes "a < 64"
  shows "(2 :: uint64) ^ a \<noteq> 0"
  using assms by simp

lemma power2_and_disjoint:
  assumes "a \<noteq> b"
  shows "(2 :: uint64) ^ a AND 2 ^ b = 0"
  using assms by (intro bit_eqI) (auto simp: bit_simps)

lemma or_xor_disjoint:
  fixes a b :: uint64
  assumes "a AND b = 0"
  shows "(a OR b) XOR a = b"
proof (rule bit_eqI)
  fix n
  from assms have "bit (a AND b) n = bit (0 :: uint64) n" by simp
  then have "\<not> (bit a n \<and> bit b n)" by (simp add: bit_simps)
  then show "bit ((a OR b) XOR a) n = bit b n" by (auto simp: bit_simps)
qed

lemma and_or_zero:
  fixes v a b :: uint64
  shows "v AND (a OR b) = 0 \<longleftrightarrow> v AND a = 0 \<and> v AND b = 0"
  by (simp add: bit.conj_disj_distrib or_eq_0_iff)

section \<open>The decode loop on the flags of a table\<close>

lemma table_flags_from_gap:
  "si < length (skips t) \<Longrightarrow>
   table_flags_from t (0 # os) v si p1 =
   table_flags_from t os (push_bit 1 (push_bit (unat (skips t ! si - 1)) v)) (si + 1) p1"
  by simp

lemma table_flags_from_name:
  "a \<noteq> 0 \<Longrightarrow>
   table_flags_from t (a # os) v si p1 =
     (case slice (names t) p1 (p1 + unat a) of
        Inl e \<Rightarrow> Inl e
      | Inr s \<Rightarrow>
          (case table_flags_from t os (push_bit 1 v) si (p1 + unat a) of
             Inl e \<Rightarrow> Inl e
           | Inr fl \<Rightarrow> Inr ((v, s) # fl)))"
  by simp

declare table_flags_from.simps(2) [simp del]

lemma mstring_loop_decode_pairs:
  assumes "table_flags_from t os v si p1 = Inr fl"
  shows "mstring_loop t os v si p1 m b = Inr (decode_pairs fl m b)"
  using assms
proof (induction os arbitrary: v si p1 m b fl)
  case Nil
  then show ?case by simp
next
  case (Cons a os)
  show ?case
  proof (cases "a = 0")
    case True
    show ?thesis
    proof (cases "si < length (skips t)")
      case si: True
      with True Cons.prems have
        "table_flags_from t os (push_bit 1 (push_bit (unat (skips t ! si - 1)) v)) (si + 1) p1
           = Inr fl"
        by (simp add: table_flags_from_gap)
      from Cons.IH [OF this] True si show ?thesis by (simp add: mstring_loop_gap)
    next
      case False
      with True Cons.prems show ?thesis by (simp add: table_flags_from.simps(2))
    qed
  next
    case False
    with Cons.prems obtain s fl' where
      s: "slice (names t) p1 (p1 + unat a) = Inr s"
      and r: "table_flags_from t os (push_bit 1 v) si (p1 + unat a) = Inr fl'"
      and fl: "fl = (v, s) # fl'"
      by (auto simp: table_flags_from_name split: sum.splits)
    note IH = Cons.IH [OF r]
    show ?thesis
    proof (cases "v AND m = 0")
      case True
      with False IH fl show ?thesis by (simp add: mstring_loop_absent)
    next
      case nz: False
      with False IH s fl show ?thesis by (simp add: mstring_loop_match)
    qed
  qed
qed

lemma table_flags_from_total:
  assumes "si + count_list os 0 \<le> length (skips t)"
    and "p1 + sum_list (map unat os) \<le> length (names t)"
  shows "\<exists>fl. table_flags_from t os v si p1 = Inr fl"
  using assms
proof (induction os arbitrary: v si p1)
  case Nil
  then show ?case by simp
next
  case (Cons a os)
  show ?case
  proof (cases "a = 0")
    case True
    with Cons.prems have si: "si < length (skips t)"
      and "(si + 1) + count_list os 0 \<le> length (skips t)"
      and "p1 + sum_list (map unat os) \<le> length (names t)"
      by simp_all
    from Cons.IH [OF this(2,3)] si True show ?thesis
      by (simp add: table_flags_from_gap)
  next
    case False
    with Cons.prems have c: "si + count_list os 0 \<le> length (skips t)"
      and p: "(p1 + unat a) + sum_list (map unat os) \<le> length (names t)"
      by simp_all
    then have s: "slice (names t) p1 (p1 + unat a)
                  = Inr (take (p1 + unat a - p1) (drop p1 (names t)))"
      by (simp add: slice_def)
    from Cons.IH [OF c p, of "push_bit 1 v"] obtain fl where
      "table_flags_from t os (push_bit 1 v) si (p1 + unat a) = Inr fl" by blast
    with False s show ?thesis by (simp add: table_flags_from_name)
  qed
qed

lemma decode_pairs_no_match:
  assumes "\<forall>p\<in>set fl. fst p AND m = 0"
  shows "decode_pairs (fl @ fl') m b = decode_pairs fl' m b"
  using assms by (induction fl) auto

lemma decode_pairs_none:
  assumes "\<forall>p\<in>set fl. fst p AND m = 0"
  shows "decode_pairs fl m b = Exhausted b m"
  using decode_pairs_no_match [OF assms, of "[]" b] by simp

lemma decode_pairs_two:
  assumes "\<forall>p\<in>set pre. fst p AND vf = 0 \<and> fst p AND vg = 0"
    and "\<forall>p\<in>set mid. fst p AND vg = 0"
    and "vf AND vg = 0" and "vf \<noteq> 0" and "vg \<noteq> 0"
  shows "decode_pairs (pre @ (vf, nf) # mid @ (vg, ng) # post) (vf OR vg) []
         = Return (''('' @ nf @ ''|'' @ ng @ '')'')"
proof -
  have "\<forall>p\<in>set pre. fst p AND (vf OR vg) = 0"
    using assms(1) by (simp add: and_or_zero)
  from decode_pairs_no_match [OF this]
  have 1: "decode_pairs (pre @ (vf, nf) # mid @ (vg, ng) # post) (vf OR vg) []
           = decode_pairs ((vf, nf) # mid @ (vg, ng) # post) (vf OR vg) []" .
  have a: "vf AND (vf OR vg) \<noteq> 0" using assms(4) by (simp add: bit.conj_disj_distrib or_eq_0_iff)
  have x: "(vf OR vg) XOR vf = vg" by (rule or_xor_disjoint [OF assms(3)])
  from a x assms(5)
  have 2: "decode_pairs ((vf, nf) # mid @ (vg, ng) # post) (vf OR vg) []
           = decode_pairs (mid @ (vg, ng) # post) vg (''('' @ nf)" by simp
  from decode_pairs_no_match [OF assms(2)]
  have 3: "decode_pairs (mid @ (vg, ng) # post) vg (''('' @ nf)
           = decode_pairs ((vg, ng) # post) vg (''('' @ nf)" .
  have 4: "decode_pairs ((vg, ng) # post) vg (''('' @ nf) = Return (''('' @ nf @ ''|'' @ ng @ '')'')"
    using assms(5) by simp
  from 1 2 3 4 show ?thesis by simp
qed

section \<open>The table of a list of good runs encodes their flags\<close>

lemma uint8_of_length:
  assumes "0 < n" and "n \<le> 255"
  shows "(word_of_int (int n) :: uint8) \<noteq> 0" and "unat (word_of_int (int n) :: uint8) = n"
proof -
  have "unat (word_of_int (int n) :: uint8) = n mod 2 ^ 8"
    by (simp add: unat_of_nat)
  with assms show u: "unat (word_of_int (int n) :: uint8) = n" by simp
  show "(word_of_int (int n) :: uint8) \<noteq> 0"
  proof
    assume "(word_of_int (int n) :: uint8) = 0"
    then have "unat (word_of_int (int n) :: uint8) = 0" by simp
    with u assms show False by simp
  qed
qed

lemma flag_pairs_simps [simp]:
  "flag_pairs [] = []"
  "flag_pairs (x # xs) = (val x, name x) # flag_pairs xs"
  "flag_pairs (xs @ ys) = flag_pairs xs @ flag_pairs ys"
  by (simp_all add: flag_pairs_def)

lemma slice_prefix:
  assumes "drop p1 s = n @ rest" and "n \<noteq> []"
  shows "slice s p1 (p1 + length n) = Inr n"
proof -
  have "length (drop p1 s) = length n + length rest" using assms(1) by simp
  with assms(2) have "p1 + length n \<le> length s" by (cases n) simp_all
  moreover have "take (length n) (drop p1 s) = n" using assms(1) by simp
  ultimately show ?thesis by (simp add: slice_def)
qed

lemma table_flags_run:
  assumes "chained_from v r"
    and "\<forall>x\<in>set r. 0 < length (name x) \<and> length (name x) \<le> 255"
    and "drop p1 (names t) = concat (map name r) @ post"
  shows "table_flags_from t (map (\<lambda>x. word_of_int (int (length (name x)))) r @ rest) v si p1 =
           (case table_flags_from t rest (push_bit (length r) v) si
                   (p1 + length (concat (map name r))) of
              Inl e \<Rightarrow> Inl e
            | Inr fl \<Rightarrow> Inr (flag_pairs r @ fl))"
  using assms
proof (induction r arbitrary: v p1)
  case Nil
  then show ?case by (simp split: sum.splits)
next
  case (Cons x xs)
  let ?n = "length (name x)"
  let ?o = "word_of_int (int ?n) :: uint8"
  from Cons.prems have vx: "val x = v" and ch: "chained_from (push_bit 1 v) xs"
    and n: "0 < ?n" "?n \<le> 255"
    and ns: "\<forall>x\<in>set xs. 0 < length (name x) \<and> length (name x) \<le> 255"
    by simp_all
  note o = uint8_of_length [OF n]
  from Cons.prems(3) have d: "drop p1 (names t) = name x @ (concat (map name xs) @ post)"
    by simp
  from n have "name x \<noteq> []" by auto
  from slice_prefix [OF d this] have s: "slice (names t) p1 (p1 + ?n) = Inr (name x)" .
  from d have "drop (p1 + ?n) (names t) = concat (map name xs) @ post"
    by (metis add.commute append_eq_conv_conj drop_drop)
  from Cons.IH [OF ch ns this]
  have IH: "table_flags_from t (map (\<lambda>x. word_of_int (int (length (name x)))) xs @ rest)
              (push_bit 1 v) si (p1 + ?n) =
            (case table_flags_from t rest (push_bit (length xs) (push_bit 1 v)) si
                    (p1 + ?n + length (concat (map name xs))) of
               Inl e \<Rightarrow> Inl e
             | Inr fl \<Rightarrow> Inr (flag_pairs xs @ fl))" .
  have p: "push_bit (length xs) (push_bit 1 v) = push_bit (length (x # xs)) v"
    by (simp add: push_bit_push_bit)
  have l: "p1 + ?n + length (concat (map name xs)) = p1 + length (concat (map name (x # xs)))"
    by simp
  have "table_flags_from t (map (\<lambda>x. word_of_int (int (length (name x)))) (x # xs) @ rest) v si p1
        = table_flags_from t (?o # (map (\<lambda>x. word_of_int (int (length (name x)))) xs @ rest)) v si p1"
    by simp
  also have "\<dots> = (case table_flags_from t (map (\<lambda>x. word_of_int (int (length (name x)))) xs @ rest)
                            (push_bit 1 v) si (p1 + ?n) of
                       Inl e \<Rightarrow> Inl e
                     | Inr fl \<Rightarrow> Inr ((v, name x) # fl))"
    using o s by (simp add: table_flags_from_name)
  also have "\<dots> = (case table_flags_from t rest (push_bit (length (x # xs)) v) si
                            (p1 + length (concat (map name (x # xs)))) of
                       Inl e \<Rightarrow> Inl e
                     | Inr fl \<Rightarrow> Inr (flag_pairs (x # xs) @ fl))"
    unfolding IH p l using vx by (simp split: sum.splits)
  finally show ?case .
qed

lemma chained_from_last:
  assumes "chained_from v r" and "r \<noteq> []"
  shows "val (last r) = push_bit (length r - 1) v"
  using assms
proof (induction r arbitrary: v)
  case Nil
  then show ?case by simp
next
  case (Cons x xs)
  show ?case
  proof (cases xs)
    case Nil
    with Cons.prems show ?thesis by simp
  next
    case (Cons y ys)
    with Cons.prems Cons.IH [of "push_bit 1 v"] show ?thesis
      by (simp add: push_bit_push_bit)
  qed
qed

lemma push_bit_power2: "push_bit k ((2 :: uint64) ^ n) = 2 ^ (n + k)"
  by (simp add: push_bit_eq_mult power_add)

lemma gap_step:
  assumes "gap_ok a b"
  shows "\<exists>c. shiftCount a b = Some c \<and> 1 \<le> c - 1 \<and> c - 1 \<le> 62
             \<and> push_bit 1 (push_bit (unat ((word_of_int (c - 1) :: uint8) - 1)) (push_bit 1 a)) = b"
proof -
  from assms obtain i j where i: "i < 64" and j: "j < 64" and a: "a = 2 ^ i" and b: "b = 2 ^ j"
    and g: "i + 2 \<le> j"
    by (auto simp: gap_ok_def)
  from g j have sc: "shiftCount a b = Some (int (j - i))"
    unfolding a b by (intro shiftCount_power) simp_all
  let ?w = "word_of_int (int (j - i) - 1) :: uint8"
  have w: "?w = of_nat (j - i - 1)" using g by (simp add: of_nat_diff)
  have "unat (of_nat (j - i - 1) :: uint8) = (j - i - 1) mod 2 ^ 8" by (simp add: unat_of_nat)
  with j have uw: "unat ?w = j - i - 1" unfolding w by simp
  have "?w \<noteq> 0"
  proof
    assume "?w = 0"
    then have "unat ?w = 0" by simp
    with uw g show False by simp
  qed
  then have "unat (?w - 1) = unat ?w - 1" by (rule unat_minus_one)
  with uw have u1: "unat (?w - 1) = j - i - 2" by simp
  have "push_bit 1 (push_bit (unat (?w - 1)) (push_bit 1 a)) = 2 ^ (i + 1 + (j - i - 2) + 1)"
    unfolding u1 a by (simp only: push_bit_power2)
  also have "i + 1 + (j - i - 2) + 1 = j" using g by simp
  finally have "push_bit 1 (push_bit (unat (?w - 1)) (push_bit 1 a)) = b" unfolding b .
  moreover have "1 \<le> int (j - i) - 1" "int (j - i) - 1 \<le> 62" using g j by simp_all
  ultimately show ?thesis using sc by simp
qed

lemma table_flags_runs:
  assumes "good_runs runs"
    and "\<forall>x\<in>set (concat runs). 0 < length (name x) \<and> length (name x) \<le> 255"
    and "drop p1 (names t) = concat (map name (concat runs))"
    and "drop si (skips t) = map word_of_int (enc_skips runs)"
  shows "table_flags_from t (map word_of_int (enc_offsets runs)) (val (hd (hd runs))) si p1
         = Inr (flag_pairs (concat runs))"
  using assms
proof (induction runs arbitrary: si p1 rule: enc_offsets.induct)
  case 1
  then show ?case by simp
next
  case (2 r)
  then have g: "good_run r" by simp
  then have ch: "chained_from (val (hd r)) r" by (simp add: good_run_def)
  from 2 have ns: "\<forall>x\<in>set r. 0 < length (name x) \<and> length (name x) \<le> 255" by simp
  from 2 have d: "drop p1 (names t) = concat (map name r) @ []" by simp
  from table_flags_run [OF ch ns d, of "[]" si] show ?case
    by (simp add: comp_def)
next
  case (3 r r' rs)
  then have g: "good_run r" and gap: "gap_ok (val (last r)) (val (hd r'))"
    and grs: "good_runs (r' # rs)"
    by simp_all
  from g have ne: "r \<noteq> []" and ch: "chained_from (val (hd r)) r"
    by (simp_all add: good_run_def)
  from "3.prems"(2) have ns: "\<forall>x\<in>set r. 0 < length (name x) \<and> length (name x) \<le> 255"
    and ns': "\<forall>x\<in>set (concat (r' # rs)). 0 < length (name x) \<and> length (name x) \<le> 255"
    by simp_all
  let ?p1 = "p1 + length (concat (map name r))"
  let ?rest = "map word_of_int (enc_offsets (r' # rs)) :: uint8 list"
  from "3.prems"(3) have d: "drop p1 (names t) = concat (map name r) @ concat (map name (concat (r' # rs)))"
    by simp
  then have d': "drop ?p1 (names t) = concat (map name (concat (r' # rs)))"
    by (metis add.commute append_eq_conv_conj drop_drop)
  from gap_step [OF gap] obtain c where
    c: "shiftCount (val (last r)) (val (hd r')) = Some c"
    and step: "push_bit 1 (push_bit (unat ((word_of_int (c - 1) :: uint8) - 1))
                 (push_bit 1 (val (last r)))) = val (hd r')"
    by blast
  from "3.prems"(4) c have sk: "drop si (skips t)
      = (word_of_int (c - 1) :: uint8) # map word_of_int (enc_skips (r' # rs))"
    by simp
  then have si: "si < length (skips t)" by (metis drop_eq_Nil list.distinct(1) not_le)
  from sk si have nth: "skips t ! si = word_of_int (c - 1)"
    by (metis hd_drop_conv_nth list.sel(1))
  from sk have sk': "drop (si + 1) (skips t) = map word_of_int (enc_skips (r' # rs))"
    by (metis add.commute drop_drop drop0 drop_Suc_Cons plus_1_eq_Suc)
  from chained_from_last [OF ch ne] ne
  have "push_bit (length r) (val (hd r)) = push_bit 1 (val (last r))"
    by (cases r) (simp_all add: push_bit_push_bit)
  with step nth
  have v: "push_bit 1 (push_bit (unat (skips t ! si - 1)) (push_bit (length r) (val (hd r))))
           = val (hd (hd (r' # rs)))"
    by simp
  from "3.IH" [OF grs ns' d' sk']
  have IH: "table_flags_from t ?rest (val (hd (hd (r' # rs)))) (si + 1) ?p1
            = Inr (flag_pairs (concat (r' # rs)))" .
  have "map word_of_int (enc_offsets (r # r' # rs))
        = map (\<lambda>x. word_of_int (int (length (name x)))) r @ (0 :: uint8) # ?rest"
    by (simp add: comp_def)
  then have "table_flags_from t (map word_of_int (enc_offsets (r # r' # rs)))
               (val (hd (hd (r # r' # rs)))) si p1
             = (case table_flags_from t (0 # ?rest) (push_bit (length r) (val (hd r))) si ?p1 of
                  Inl e \<Rightarrow> Inl e
                | Inr fl \<Rightarrow> Inr (flag_pairs r @ fl))"
    using table_flags_run [OF ch ns d, of "0 # ?rest" si] by (simp add: comp_def)
  also have "table_flags_from t (0 # ?rest) (push_bit (length r) (val (hd r))) si ?p1
             = table_flags_from t ?rest (val (hd (hd (r' # rs)))) (si + 1) ?p1"
    using si v by (simp add: table_flags_from_gap)
  finally show ?case using IH by simp
qed

lemma good_runs_skips:
  assumes "good_runs runs"
  shows "\<forall>s\<in>set (enc_skips runs). 1 \<le> s \<and> s \<le> 62"
  using assms
proof (induction runs rule: enc_skips.induct)
  case 1
  then show ?case by simp
next
  case (2 r)
  then show ?case by simp
next
  case (3 r r' rs)
  then have gap: "gap_ok (val (last r)) (val (hd r'))" and grs: "good_runs (r' # rs)"
    by simp_all
  from gap_step [OF gap] obtain c where
    "shiftCount (val (last r)) (val (hd r')) = Some c" and "1 \<le> c - 1" and "c - 1 \<le> 62"
    by blast
  with "3.IH" [OF grs] show ?case by simp
qed

section \<open>The output of the partitioner\<close>

lemma insert_stable_sorted:
  assumes "sorted_wrt (\<lambda>x y. val x \<le> val y) ys" and "\<not> signed x" and "\<forall>y\<in>set ys. \<not> signed y"
  shows "sorted_wrt (\<lambda>x y. val x \<le> val y) (insert_stable byValue_Less x ys)"
  using assms
proof (induction ys)
  case Nil
  then show ?case by simp
next
  case (Cons y ys)
  then have L: "byValue_Less y x = (val y < val x)" by (simp add: byValue_Less_def)
  show ?case
  proof (cases "val y < val x")
    case True
    with Cons L show ?thesis by (auto simp: set_insert_stable)
  next
    case False
    then have "val x \<le> val y" by simp
    with Cons.prems(1) have "\<forall>z\<in>set (y # ys). val x \<le> val z" by auto
    with Cons.prems(1) False L show ?thesis by simp
  qed
qed

lemma sort_Stable_sorted:
  assumes "\<forall>x\<in>set vs. \<not> signed x"
  shows "sorted_wrt (\<lambda>x y. val x \<le> val y) (sort_Stable byValue_Less vs)"
  using assms
proof (induction vs)
  case Nil
  show ?case by (simp add: sort_Stable_def)
next
  case (Cons x xs)
  then show ?case
    by (simp add: sort_Stable_Cons insert_stable_sorted set_sort_Stable)
qed

lemma strip_zeros_suffix:
  assumes "strip_zeros vs = Inr vs'"
  shows "\<exists>pre. vs = pre @ vs' \<and> vs' \<noteq> []"
  using assms
proof (induction vs)
  case Nil
  then show ?case by simp
next
  case (Cons v vs)
  show ?case
  proof (cases "val v = 0")
    case True
    with Cons obtain pre where "vs = pre @ vs'" and "vs' \<noteq> []" by auto
    then have "v # vs = (v # pre) @ vs'" by simp
    with \<open>vs' \<noteq> []\<close> show ?thesis by blast
  next
    case False
    with Cons.prems have "vs' = v # vs" by simp
    then have "v # vs = [] @ vs'" and "vs' \<noteq> []" by simp_all
    then show ?thesis by blast
  qed
qed

lemma remove_loop_kept:
  assumes "1 \<le> i" and "j \<le> i" and "i \<le> length vs"
  shows "take (snd (remove_loop i j vs)) (fst (remove_loop i j vs))
         = take j vs @ kept (vs ! (i - 1)) (drop i vs)"
  using assms
proof (induction i j vs rule: remove_loop.induct)
  case (1 i j vs)
  show ?case
  proof (cases "i < length vs")
    case False
    with "1.prems" have "drop i vs = []" by simp
    with False show ?thesis by (subst (1 2) remove_loop.simps) simp
  next
    case True
    then have d: "drop i vs = vs ! i # drop (i + 1) vs"
      by (simp add: Cons_nth_drop_Suc)
    show ?thesis
    proof (cases "val (vs ! i) \<noteq> val (vs ! (i - 1)) \<and> singleBitSet (val (vs ! i))")
      case c: True
      let ?vs = "vs[j := vs ! i]"
      from True "1.prems" have jl: "j < length vs" by simp
      have IH: "take (snd (remove_loop (i + 1) (j + 1) ?vs)) (fst (remove_loop (i + 1) (j + 1) ?vs))
                = take (j + 1) ?vs @ kept (?vs ! (i + 1 - 1)) (drop (i + 1) ?vs)"
        using "1.IH"(1) [OF True c] True "1.prems" by simp
      have t: "take (j + 1) ?vs = take j vs @ [vs ! i]"
        using jl by (simp add: take_Suc_conv_app_nth)
      have n: "?vs ! (i + 1 - 1) = vs ! i"
        using True by (cases "j = i") simp_all
      have dr: "drop (i + 1) ?vs = drop (i + 1) vs"
        using "1.prems" by simp
      have "remove_loop i j vs = remove_loop (i + 1) (j + 1) ?vs"
        using True c by (subst remove_loop.simps) simp
      with IH t n dr d c show ?thesis by simp
    next
      case c: False
      have IH: "take (snd (remove_loop (i + 1) j vs)) (fst (remove_loop (i + 1) j vs))
                = take j vs @ kept (vs ! (i + 1 - 1)) (drop (i + 1) vs)"
        using "1.IH"(2) [OF True c] True "1.prems" by simp
      have "remove_loop i j vs = remove_loop (i + 1) j vs"
        using True c by (subst remove_loop.simps) auto
      with IH d c show ?thesis by auto
    qed
  qed
qed

lemma kept_sorted:
  assumes "sorted_wrt (\<lambda>x y. val x \<le> val y) (p # xs)"
  shows "sorted_wrt (\<lambda>x y. val x < val y) (kept p xs)
         \<and> (\<forall>y\<in>set (kept p xs). val p < val y \<and> singleBitSet (val y) \<and> y \<in> set xs)"
  using assms
proof (induction xs arbitrary: p)
  case Nil
  then show ?case by simp
next
  case (Cons x xs)
  from Cons.prems have px: "val p \<le> val x" and s: "sorted_wrt (\<lambda>x y. val x \<le> val y) (x # xs)"
    by simp_all
  from Cons.IH [OF s] have IH: "sorted_wrt (\<lambda>x y. val x < val y) (kept x xs)"
    and IH2: "\<forall>y\<in>set (kept x xs). val x < val y \<and> singleBitSet (val y) \<and> y \<in> set xs"
    by simp_all
  from IH2 px have up: "\<forall>y\<in>set (kept x xs). val p < val y" by auto
  show ?case
  proof (cases "val x \<noteq> val p \<and> singleBitSet (val x)")
    case True
    with px have "val p < val x" by (intro le_neq_trans) auto
    with True IH IH2 up show ?thesis by auto
  next
    case False
    with IH IH2 up show ?thesis by auto
  qed
qed

lemma run_end_props:
  assumes "1 \<le> i" and "i \<le> length vs"
  shows "i \<le> run_end i vs \<and> run_end i vs \<le> length vs
         \<and> (\<forall>k. i \<le> k \<and> k < run_end i vs \<longrightarrow> val (vs ! k) = push_bit 1 (val (vs ! (k - 1))))
         \<and> (run_end i vs < length vs \<longrightarrow>
              val (vs ! run_end i vs) \<noteq> push_bit 1 (val (vs ! (run_end i vs - 1))))"
  using assms
proof (induction i vs rule: run_end.induct)
  case (1 i vs)
  show ?case
  proof (cases "i < length vs \<and> val (vs ! i) = push_bit 1 (val (vs ! (i - 1)))")
    case True
    then have e: "run_end i vs = run_end (i + 1) vs" by (subst run_end.simps) simp
    from "1.IH" [OF True] True have IH: "i + 1 \<le> run_end (i + 1) vs \<and> run_end (i + 1) vs \<le> length vs
         \<and> (\<forall>k. i + 1 \<le> k \<and> k < run_end (i + 1) vs \<longrightarrow> val (vs ! k) = push_bit 1 (val (vs ! (k - 1))))
         \<and> (run_end (i + 1) vs < length vs \<longrightarrow>
              val (vs ! run_end (i + 1) vs) \<noteq> push_bit 1 (val (vs ! (run_end (i + 1) vs - 1))))"
      by simp
    have "val (vs ! k) = push_bit 1 (val (vs ! (k - 1)))" if "i \<le> k" "k < run_end (i + 1) vs" for k
    proof (cases "k = i")
      case True
      with \<open>i < length vs \<and> val (vs ! i) = push_bit 1 (val (vs ! (i - 1)))\<close> show ?thesis by simp
    next
      case False
      with that have "i + 1 \<le> k" by simp
      with IH that show ?thesis by blast
    qed
    with IH show ?thesis unfolding e by auto
  next
    case False
    then have e: "run_end i vs = i" by (subst run_end.simps) auto
    with False "1.prems" show ?thesis by auto
  qed
qed

lemma successively_chained:
  assumes "successively (\<lambda>x y. val y = push_bit 1 (val x)) r" and "r \<noteq> []"
  shows "chained_from (val (hd r)) r"
  using assms
proof (induction r)
  case Nil
  then show ?case by simp
next
  case (Cons x xs)
  then show ?case by (cases xs) simp_all
qed

lemma take_run_chained:
  assumes "1 \<le> e" and "e \<le> length vs"
    and "\<forall>k. 1 \<le> k \<and> k < e \<longrightarrow> val (vs ! k) = push_bit 1 (val (vs ! (k - 1)))"
  shows "chained_from (val (hd (take e vs))) (take e vs)"
proof (rule successively_chained)
  show "take e vs \<noteq> []" using assms by auto
  show "successively (\<lambda>x y. val y = push_bit 1 (val x)) (take e vs)"
    unfolding successively_conv_nth
  proof (intro allI impI)
    fix k
    assume "Suc k < length (take e vs)"
    then have "Suc k < e" by simp
    with assms(3) have "val (vs ! Suc k) = push_bit 1 (val (vs ! k))"
      by (metis One_nat_def Suc_le_mono diff_Suc_1 zero_le)
    with \<open>Suc k < e\<close> show "val (take e vs ! Suc k) = push_bit 1 (val (take e vs ! k))"
      by simp
  qed
qed

lemma concat_split_runs: "concat (split_runs vs) = vs"
proof (induction vs rule: split_runs.induct)
  case (1 vs)
  show ?case
  proof (cases "0 < length vs")
    case True
    with "1.IH" [OF True refl] show ?thesis
      by (subst split_runs.simps) (simp add: Let_def)
  next
    case False
    then show ?thesis by (subst split_runs.simps) simp
  qed
qed

lemma split_runs_Cons:
  assumes "vs \<noteq> []"
  shows "split_runs vs = take (run_end 1 vs) vs # split_runs (drop (run_end 1 vs) vs)"
  using assms by (subst split_runs.simps) (simp add: Let_def)

lemma split_runs_Nil [simp]: "split_runs [] = []"
  by (subst split_runs.simps) simp

lemma split_runs_good:
  assumes "vs \<noteq> []" and "sorted_wrt (\<lambda>x y. val x < val y) vs"
    and "\<forall>x\<in>set vs. singleBitSet (val x)"
  shows "good_runs (split_runs vs)"
  using assms
proof (induction vs rule: split_runs.induct)
  case (1 vs)
  let ?e = "run_end 1 vs"
  let ?r = "take ?e vs"
  let ?rest = "drop ?e vs"
  from "1.prems"(1) have len: "1 \<le> length vs" by (cases vs) simp_all
  note p = run_end_props [OF le_refl len]
  from p have e1: "1 \<le> ?e" and el: "?e \<le> length vs" by simp_all
  from p have ch: "chained_from (val (hd ?r)) ?r"
    by (intro take_run_chained [OF e1 el]) blast
  from ch e1 "1.prems"(1) have gr: "good_run ?r" by (auto simp: good_run_def)
  show ?case
  proof (cases "?rest = []")
    case True
    with gr "1.prems"(1) show ?thesis by (simp add: split_runs_Cons)
  next
    case False
    then have elt: "?e < length vs" by simp
    have s: "sorted_wrt (\<lambda>x y. val x < val y) ?rest"
      using "1.prems"(2) by (metis append_take_drop_id sorted_wrt_append)
    have sb: "\<forall>x\<in>set ?rest. singleBitSet (val x)"
      using "1.prems"(3) by (auto dest: in_set_dropD)
    from "1.prems"(1) have "0 < length vs" by simp
    from "1.IH" [OF this refl False s sb] have IH: "good_runs (split_runs ?rest)" .
    let ?r' = "take (run_end 1 ?rest) ?rest"
    have sr: "split_runs ?rest = ?r' # split_runs (drop (run_end 1 ?rest) ?rest)"
      by (rule split_runs_Cons [OF False])
    have "1 \<le> length ?rest" using False by (cases ?rest) simp_all
    from run_end_props [OF le_refl this] have "1 \<le> run_end 1 ?rest" by simp
    then have hd': "hd ?r' = vs ! ?e" using False elt
      by (metis One_nat_def Suc_le_lessD hd_drop_conv_nth hd_take)
    have "?r \<noteq> []" using e1 "1.prems"(1) by simp
    then have "last ?r = ?r ! (length ?r - 1)" by (rule last_conv_nth)
    also have "length ?r = ?e" using el by simp
    also have "?r ! (?e - 1) = vs ! (?e - 1)" using e1 by simp
    finally have last: "last ?r = vs ! (?e - 1)" .
    from e1 elt have a_in: "vs ! (?e - 1) \<in> set vs" and b_in: "vs ! ?e \<in> set vs" by simp_all
    from "1.prems"(3) a_in singleBitSet_power obtain i where i: "i < 64" "val (vs ! (?e - 1)) = 2 ^ i"
      by blast
    from "1.prems"(3) b_in singleBitSet_power obtain j where j: "j < 64" "val (vs ! ?e) = 2 ^ j"
      by blast
    from "1.prems"(2) e1 elt have "val (vs ! (?e - 1)) < val (vs ! ?e)"
      by (intro sorted_wrt_nth_less [where P = "\<lambda>x y. val x < val y"]) simp_all
    with i j have ij: "i < j" by (simp add: power2_less_iff)
    from p elt have "val (vs ! ?e) \<noteq> push_bit 1 (val (vs ! (?e - 1)))" by simp
    with i j have "(2 :: uint64) ^ j \<noteq> 2 ^ (i + 1)" by (simp add: push_bit_power2)
    with ij have "i + 2 \<le> j" by (cases "j = i + 1") simp_all
    with i j have "gap_ok (val (last ?r)) (val (hd ?r'))"
      unfolding last hd' by (auto simp: gap_ok_def)
    with gr IH sr "1.prems"(1) show ?thesis by (simp add: split_runs_Cons)
  qed
qed

section \<open>The only error of the builder on the partitioner's runs\<close>

lemma shiftCount_loop_returns:
  assumes "prev \<noteq> 0" and "j < 64"
  shows "\<exists>c'. shiftCount_loop prev (2 ^ j) c = Some c'"
  using assms
proof (induction "2 ^ j - unat prev" arbitrary: prev c rule: less_induct)
  case less
  show ?case
  proof (cases "prev < 2 ^ j")
    case False
    then show ?thesis by (subst shiftCount_loop.simps) simp
  next
    case True
    with less.prems(2) have lt: "unat prev < 2 ^ j" by (simp add: word_less_nat_alt unat_power2)
    from less.prems(2) have "(2 :: nat) ^ j \<le> 2 ^ 63" by (intro power_increasing) simp_all
    with lt have "unat prev + unat prev < 2 ^ LENGTH(64)" by simp
    then have u: "unat (prev + prev) = unat prev + unat prev" by (simp only: unat_add_lem)
    have p: "push_bit 1 prev = prev + prev" by (simp add: push_bit_eq_mult)
    from less.prems(1) have pos: "0 < unat prev" by (simp add: unat_gt_0)
    with u have nz: "prev + prev \<noteq> 0" by (metis add_gr_0 unat_gt_0)
    from pos lt u have "2 ^ j - unat (prev + prev) < 2 ^ j - unat prev" by simp
    from less.hyps [OF this nz less.prems(2), of "c + 1"] obtain c' where
      r: "shiftCount_loop (prev + prev) (2 ^ j) (c + 1) = Some c'" by blast
    have "shiftCount_loop prev (2 ^ j) c = shiftCount_loop (push_bit 1 prev) (2 ^ j) (c + 1)"
      using True by (subst shiftCount_loop.simps) (simp only: if_True)
    with r p have "shiftCount_loop prev (2 ^ j) c = Some c'" by (simp only:)
    then show ?thesis by blast
  qed
qed

lemma nameAndRest_run_error:
  assumes "nameAndRest_run run acc = Inl e"
  shows "\<exists>n s. e = NameTooLong n s \<and> 255 < n"
  using assms
proof (induction run arbitrary: acc)
  case Nil
  then show ?case by simp
next
  case (Cons x xs)
  obtain ns os where acc: "acc = (ns, os)" by (cases acc)
  show ?case
  proof (cases "255 < length (name x)")
    case True
    with Cons.prems acc show ?thesis by (auto simp: Let_def)
  next
    case False
    with Cons.prems acc have
      "nameAndRest_run xs (ns @ [name x], os @ [int (length (name x))]) = Inl e"
      by (simp add: Let_def)
    from Cons.IH [OF this] show ?thesis .
  qed
qed

lemma strip_zeros_hd:
  assumes "strip_zeros vs = Inr vs'"
  shows "val (hd vs') \<noteq> 0"
  using assms by (induction vs) (auto split: if_splits)

lemma nameAndRest_loop_split_error:
  assumes "\<forall>x\<in>set fl. val x \<noteq> 0" and "\<forall>x\<in>set (tl fl). singleBitSet (val x)"
    and "nameAndRest_loop (split_runs fl) acc = Inl e"
  shows "\<exists>n s. e = NameTooLong n s \<and> 255 < n"
  using assms
proof (induction fl arbitrary: acc rule: split_runs.induct)
  case (1 vs)
  obtain ns os ss where acc: "acc = (ns, os, ss)" by (cases acc)
  show ?case
  proof (cases "vs = []")
    case True
    with "1.prems"(3) show ?thesis by simp
  next
    case False
    let ?e = "run_end 1 vs"
    let ?r = "take ?e vs"
    let ?rest = "drop ?e vs"
    from False have len: "1 \<le> length vs" by (cases vs) simp_all
    note p = run_end_props [OF le_refl len]
    from p have e1: "1 \<le> ?e" and el: "?e \<le> length vs" by simp_all
    from e1 False have rne: "?r \<noteq> []" by simp
    have sr: "split_runs vs = ?r # split_runs ?rest" by (rule split_runs_Cons [OF False])
    show ?thesis
    proof (cases "nameAndRest_run ?r (ns, os)")
      case (Inl e')
      with "1.prems"(3) sr acc have "e = e'" by simp
      with nameAndRest_run_error [OF Inl] show ?thesis by simp
    next
      case (Inr a)
      obtain ns1 os1 where a: "a = (ns1, os1)" by (cases a)
      show ?thesis
      proof (cases "?rest = []")
        case True
        with "1.prems"(3) sr acc Inr a show ?thesis by simp
      next
        case rest: False
        let ?r' = "take (run_end 1 ?rest) ?rest"
        have sr': "split_runs ?rest = ?r' # split_runs (drop (run_end 1 ?rest) ?rest)"
          by (rule split_runs_Cons [OF rest])
        have "1 \<le> length ?rest" using rest by (cases ?rest) simp_all
        from run_end_props [OF le_refl this] have "1 \<le> run_end 1 ?rest" by simp
        with rest obtain y ys where r': "?r' = y # ys" and y: "y = hd ?rest"
          by (cases ?rest) (auto simp: take_Suc_conv_app_nth neq_Nil_conv
              dest!: Suc_le_D)
        from rest have "hd ?rest \<in> set ?rest" by simp
        moreover have "set ?rest \<subseteq> set (tl vs)"
          using e1 by (metis One_nat_def Suc_le_D drop_Suc set_drop_subset tl_drop)
        ultimately have "singleBitSet (val y)" using "1.prems"(2) y by auto
        from singleBitSet_power [OF this] obtain j where j: "j < 64" "val y = 2 ^ j" by blast
        have "last ?r \<in> set vs" using rne by (metis in_set_takeD last_in_set)
        with "1.prems"(1) have "val (last ?r) \<noteq> 0" by simp
        from shiftCount_loop_returns [OF this j(1), of 0] j(2) obtain c where
          c: "shiftCount (val (last ?r)) (val y) = Some c"
          by (auto simp: shiftCount_def)
        have l: "runLastValue ?r = Inr (last ?r)"
          using rne by (simp add: runLastValue_def last_conv_nth)
        from "1.prems"(3) sr sr' r' acc Inr a l c have
          rec: "nameAndRest_loop (split_runs ?rest) (ns1, os1 @ [0], ss @ [c - 1]) = Inl e"
          by simp
        have nz: "\<forall>x\<in>set ?rest. val x \<noteq> 0" using "1.prems"(1) by (auto dest: in_set_dropD)
        have "set (tl ?rest) \<subseteq> set (tl vs)"
          by (metis drop_Suc set_drop_subset tl_drop)
        with "1.prems"(2) have sb: "\<forall>x\<in>set (tl ?rest). singleBitSet (val x)" by auto
        from False have "0 < length vs" by simp
        from "1.IH" [OF this refl nz sb rec] show ?thesis .
      qed
    qed
  qed
qed

section \<open>From the constants of a type to the flags of its table\<close>

lemma splitIntoBitflagRuns_flags:
  assumes "splitIntoBitflagRuns vals = Inr (z, runs)"
  shows "concat runs \<noteq> [] \<and> runs = split_runs (concat runs)
         \<and> sorted_wrt (\<lambda>x y. val x < val y) (concat runs)
         \<and> (\<forall>x\<in>set (tl (concat runs)). singleBitSet (val x))
         \<and> (\<forall>x\<in>set (concat runs). val x \<noteq> 0)"
proof -
  let ?v2 = "sort_Stable byValue_Less (map (\<lambda>v. v\<lparr>signed := False\<rparr>) vals)"
  have "\<forall>x\<in>set (map (\<lambda>v. v\<lparr>signed := False\<rparr>) vals). \<not> signed x" by simp
  from sort_Stable_sorted [OF this] have s2: "sorted_wrt (\<lambda>x y. val x \<le> val y) ?v2" .
  from assms obtain v3 where suf: "\<exists>pre. ?v2 = pre @ v3" and ne: "v3 \<noteq> []"
    and hd3: "val (hd v3) \<noteq> 0"
    and runs: "runs = split_runs (take (snd (remove_loop 1 1 v3)) (fst (remove_loop 1 1 v3)))"
  proof -
    from assms obtain v0 rest where v2: "?v2 = v0 # rest"
      by (auto simp: splitIntoBitflagRuns_def Let_def split: list.splits)
    show ?thesis
    proof (cases "val v0 = 0")
      case True
      with assms v2 obtain v3 where st: "strip_zeros ?v2 = Inr v3"
        and "runs = split_runs (take (snd (remove_loop 1 1 v3)) (fst (remove_loop 1 1 v3)))"
        by (auto simp: splitIntoBitflagRuns_def Let_def split: sum.splits prod.splits)
      with strip_zeros_suffix [OF st] strip_zeros_hd [OF st] that show ?thesis by blast
    next
      case False
      with assms v2 have
        "runs = split_runs (take (snd (remove_loop 1 1 ?v2)) (fst (remove_loop 1 1 ?v2)))"
        by (auto simp: splitIntoBitflagRuns_def Let_def split: prod.splits)
      moreover have "?v2 = [] @ ?v2" by simp
      ultimately show ?thesis using that v2 False by (metis list.distinct(1) list.sel(1))
    qed
  qed
  from suf s2 have s3: "sorted_wrt (\<lambda>x y. val x \<le> val y) v3"
    by (auto simp: sorted_wrt_append)
  from ne obtain p xs where v3: "v3 = p # xs" by (cases v3) auto
  have "1 \<le> length v3" using ne by (cases v3) simp_all
  from remove_loop_kept [OF le_refl le_refl this]
  have fl: "take (snd (remove_loop 1 1 v3)) (fst (remove_loop 1 1 v3)) = p # kept p xs"
    by (simp add: v3)
  from kept_sorted [OF s3 [unfolded v3]] have
    k: "sorted_wrt (\<lambda>x y. val x < val y) (kept p xs)"
    "\<forall>y\<in>set (kept p xs). val p < val y \<and> singleBitSet (val y) \<and> y \<in> set xs"
    by simp_all
  have c: "concat runs = p # kept p xs"
    unfolding runs fl by (rule concat_split_runs)
  from hd3 v3 have "val p \<noteq> 0" by simp
  moreover have "val y \<noteq> 0" if "y \<in> set (kept p xs)" for y
  proof -
    from k(2) that have "val p < val y" by blast
    then show ?thesis by (metis word_not_simps(1))
  qed
  ultimately have "\<forall>x\<in>set (p # kept p xs). val x \<noteq> 0" by auto
  with c runs fl k show ?thesis by auto
qed

lemma splitIntoBitflagRuns_good:
  assumes "splitIntoBitflagRuns vals = Inr (z, runs)"
    and "\<forall>x\<in>set (concat runs). singleBitSet (val x)"
  shows "good_runs runs"
proof -
  from splitIntoBitflagRuns_flags [OF assms(1)] have
    "concat runs \<noteq> []" and r: "runs = split_runs (concat runs)"
    and "sorted_wrt (\<lambda>x y. val x < val y) (concat runs)"
    by simp_all
  from split_runs_good [OF this(1,3) assms(2)] r show ?thesis by simp
qed

lemma good_runs_hd:
  assumes "good_runs runs"
  shows "runs \<noteq> [] \<and> hd runs \<noteq> []"
  using assms by (cases runs rule: enc_offsets.cases) (simp_all add: good_run_def)

lemma buildBitflag_fields:
  assumes "buildBitflag vals tn = Inr t" and "splitIntoBitflagRuns vals = Inr (z, runs)"
  shows "typename t = tn \<and> names t = concat (map name (concat runs))
         \<and> offsets t = map word_of_int (enc_offsets runs)
         \<and> skips t = map word_of_int (enc_skips runs)
         \<and> first t = val (hd (hd runs))
         \<and> (\<forall>x\<in>set (concat runs). length (name x) \<le> 255)
         \<and> uint8_literals (enc_offsets runs) = Inr (offsets t)
         \<and> uint8_literals (enc_skips runs) = Inr (skips t)"
proof -
  from assms obtain nm os ss os8 ss8 v0 r0 rs where
    runs: "runs = (v0 # r0) # rs" and nr: "nameAndRest runs = Inr (nm, os, ss)"
    and o8: "uint8_literals os = Inr os8" and s8: "uint8_literals ss = Inr ss8"
    and t: "t = \<lparr>typename = tn, zero = (case z of None \<Rightarrow> tn @ ''(0)'' | Some z' \<Rightarrow> name z'),
                 names = nm, first = val v0, offsets = os8, skips = ss8\<rparr>"
    by (auto simp: buildBitflag_def Let_def split: sum.splits list.splits prod.splits)
  from nameAndRest_Inr [OF nr] uint8_literals_Inr [OF o8] uint8_literals_Inr [OF s8] runs t o8 s8
  show ?thesis by simp
qed

lemma buildBitflag_table_flags:
  assumes "buildBitflag vals tn = Inr t" and "splitIntoBitflagRuns vals = Inr (z, runs)"
    and "\<forall>x\<in>set (concat runs). singleBitSet (val x) \<and> name x \<noteq> []"
  shows "table_flags t = Inr (flag_pairs (concat runs))"
proof -
  note f = buildBitflag_fields [OF assms(1,2)]
  from f assms(3) have nm: "\<forall>x\<in>set (concat runs). 0 < length (name x) \<and> length (name x) \<le> 255"
    by auto
  from assms(3) have "\<forall>x\<in>set (concat runs). singleBitSet (val x)" by simp
  from splitIntoBitflagRuns_good [OF assms(2) this] have g: "good_runs runs" .
  have "drop 0 (names t) = concat (map name (concat runs))"
    and "drop 0 (skips t) = map word_of_int (enc_skips runs)"
    using f by simp_all
  from table_flags_runs [OF g nm this] f show ?thesis by (simp add: table_flags_def)
qed

lemma mstring_decode_pairs:
  assumes "table_flags t = Inr fl" and "m \<noteq> 0"
  shows "mstring t m = Inr (finish (typename t) (decode_pairs fl m []))"
  using mstring_loop_decode_pairs [OF assms(1) [unfolded table_flags_def], of m "[]"] assms(2)
  by (simp add: mstring_def)

lemma sorted_flags_disjoint:
  assumes "sorted_wrt (\<lambda>x y. val x < val y) fs" and "\<forall>x\<in>set fs. singleBitSet (val x)"
    and "x \<in> set fs" and "y \<in> set fs" and "val x \<noteq> val y"
  shows "val x AND val y = 0"
proof -
  from assms(2,3) singleBitSet_power obtain i where i: "val x = 2 ^ i" by blast
  from assms(2,4) singleBitSet_power obtain j where j: "val y = 2 ^ j" by blast
  from assms(5) i j have "i \<noteq> j" by auto
  then show ?thesis unfolding i j by (rule power2_and_disjoint)
qed

lemma uint8_literals_props:
  assumes "uint8_literals xs = Inr ws"
  shows "int (sum_list (map unat ws)) = sum_list xs \<and> count_list ws 0 = count_list xs 0
         \<and> map (\<lambda>w. int (unat w)) ws = xs"
  using assms
proof (induction xs arbitrary: ws)
  case Nil
  then show ?case by simp
next
  case (Cons x xs)
  from Cons.prems obtain ws' where x: "0 \<le> x" "x \<le> 255"
    and ws': "uint8_literals xs = Inr ws'" and ws: "ws = word_of_int x # ws'"
    by (auto split: if_splits sum.splits)
  have "uint (word_of_int x :: uint8) = x mod 2 ^ 8" by (simp add: uint_word_of_int)
  with x have u: "int (unat (word_of_int x :: uint8)) = x" by simp
  then have "(word_of_int x :: uint8) = 0 \<longleftrightarrow> x = 0"
    by (metis int_ops(1) unat_0 word_of_int_0)
  with Cons.IH [OF ws'] ws u show ?case by simp
qed

lemma buildBitflag_wellformed:
  assumes "buildBitflag vals tn = Inr t" and "splitIntoBitflagRuns vals = Inr (z, runs)"
    and "\<forall>x\<in>set (concat runs). name x \<noteq> []"
  shows "wellformed t"
proof -
  note f = buildBitflag_fields [OF assms(1,2)]
  from f have "uint8_literals (enc_offsets runs) = Inr (offsets t)" by simp
  note o = uint8_literals_props [OF this]
  from o have "int (sum_list (map unat (offsets t))) = int (length (names t))"
    using f by (simp add: sum_list_enc_offsets)
  then have 1: "sum_list (map unat (filter (\<lambda>x. x \<noteq> 0) (offsets t))) = length (names t)"
    by (simp add: sum_unat_filter_nonzero)
  from f have "length (skips t) = length runs - 1" by (simp add: length_enc_skips)
  with o count_enc_offsets [OF assms(3)] have 2: "length (skips t) = count_list (offsets t) 0"
    by simp
  from 1 2 show ?thesis by (simp add: wellformed_def)
qed

lemma buildBitflag_skips:
  assumes "buildBitflag vals tn = Inr t" and "splitIntoBitflagRuns vals = Inr (z, runs)"
    and "\<forall>x\<in>set (concat runs). singleBitSet (val x)"
  shows "\<forall>s\<in>set (skips t). 1 \<le> unat s \<and> unat s \<le> 62"
proof -
  note f = buildBitflag_fields [OF assms(1,2)]
  from f have "uint8_literals (enc_skips runs) = Inr (skips t)" by simp
  from uint8_literals_props [OF this] have m: "map (\<lambda>w. int (unat w)) (skips t) = enc_skips runs"
    by simp
  from good_runs_skips [OF splitIntoBitflagRuns_good [OF assms(2,3)]]
  have "\<forall>s\<in>set (enc_skips runs). 1 \<le> s \<and> s \<le> 62" .
  then have "\<forall>s\<in>set (map (\<lambda>w. int (unat w)) (skips t)). 1 \<le> s \<and> s \<le> 62"
    unfolding m .
  then have "\<forall>s\<in>set (skips t). 1 \<le> int (unat s) \<and> int (unat s) \<le> 62"
    by (simp del: of_nat_unat)
  then show ?thesis by (metis of_nat_le_iff of_nat_1 of_nat_numeral)
qed

section \<open>The per-type methods at the type of the receiver\<close>

text \<open>
  Without a zero offset the template without skips runs as the template with skips, at
  every type of receiver.
\<close>

lemma noskips_WithSkips_eq:
  fixes v m :: "'a::len word"
  assumes "0 \<notin> set os"
  shows "stringBitflagCode_loop t os v p1 m b = stringBitflagCodeWithSkips_loop t os v si p1 m b"
  using assms
proof (induction os arbitrary: v p1 m b)
  case Nil
  show ?case by simp
next
  case (Cons a os)
  then have a: "a \<noteq> 0" and IH: "\<And>(v :: 'a word) p1 (m :: 'a word) b.
      stringBitflagCode_loop t os v p1 m b = stringBitflagCodeWithSkips_loop t os v si p1 m b"
    by auto
  from a show ?case
    by (cases "v AND m = 0")
      (simp_all add: WithSkips_loop_absent noskips_loop_absent WithSkips_loop_match
        noskips_loop_match IH split: sum.splits)
qed

text \<open>
  Casts between the 64 bits of the shared routine and a receiver of at most 64 bits, for a
  value \<^verbatim>\<open>v\<close> that is a power of two (or 0, when the bit has been shifted out).
\<close>

lemma push_bit_power2_word: "push_bit n ((2 :: 'a::len word) ^ k) = 2 ^ (k + n)"
  by (simp add: push_bit_eq_mult power_add)

lemma ucast_power2:
  assumes "LENGTH('a::len) \<le> 64"
  shows "(ucast ((2 :: uint64) ^ k) :: 'a word) = 2 ^ k"
  using assms by (intro bit_word_eqI) (auto simp add: bit_simps)

lemma power2_and_ucast:
  fixes m :: "'a::len word"
  assumes "LENGTH('a) \<le> 64"
  shows "((2 :: uint64) ^ k AND ucast m = 0) \<longleftrightarrow> ((2 :: 'a word) ^ k AND m = 0)"
proof -
  have "((2 :: uint64) ^ k AND ucast m = 0) \<longleftrightarrow> \<not> bit (ucast m :: uint64) k"
    by (simp add: and_exp_eq_0_iff_not_bit and.commute)
  also have "\<dots> \<longleftrightarrow> \<not> bit m k"
    using assms by (auto simp add: bit_simps dest: bit_imp_le_length)
  also have "\<dots> \<longleftrightarrow> ((2 :: 'a word) ^ k AND m = 0)"
    by (simp add: and_exp_eq_0_iff_not_bit and.commute)
  finally show ?thesis .
qed

lemma xor_power2_ucast:
  fixes m :: "'a::len word"
  assumes "LENGTH('a) \<le> 64" and "(2 :: 'a word) ^ k AND m \<noteq> 0"
  shows "ucast m XOR (2 :: uint64) ^ k = ucast (m XOR 2 ^ k)"
proof -
  from assms(2) have "bit m k" by (simp add: and_exp_eq_0_iff_not_bit and.commute)
  then have "k < LENGTH('a)" by (rule bit_imp_le_length)
  with assms(1) show ?thesis
    by (intro bit_word_eqI) (auto simp add: bit_simps)
qed

lemma ucast_eq_0_iff:
  fixes x :: "'a::len word"
  assumes "LENGTH('a) \<le> 64"
  shows "(ucast x :: uint64) = 0 \<longleftrightarrow> x = 0"
proof
  assume z: "(ucast x :: uint64) = 0"
  show "x = 0"
  proof (rule bit_word_eqI)
    fix n
    assume n: "n < LENGTH('a)"
    from z have "\<not> bit (ucast x :: uint64) n" by simp
    with n assms show "bit x n = bit (0 :: 'a word) n" by (simp add: bit_simps)
  qed
qed simp

text \<open>
  While \<^verbatim>\<open>v\<close> is a single bit, the loop of the per-type method on a receiver \<^verbatim>\<open>m\<close> and the
  loop of \<^verbatim>\<open>mstring\<close> on \<^verbatim>\<open>m\<close> extended with zeros take the same steps.
\<close>

lemma WithSkips_loop_sim:
  fixes m v :: "'a::len word" and v' :: uint64
  assumes "LENGTH('a) \<le> 64" and "v = 2 ^ k" and "v' = 2 ^ k"
  shows "map_sum (\<lambda>e. e) (map_loop_result ucast) (stringBitflagCodeWithSkips_loop t os v si p1 m b)
         = mstring_loop t os v' si p1 (ucast m) b"
  using assms(2,3)
proof (induction os arbitrary: k v v' si p1 m b)
  case Nil
  show ?case by simp
next
  case (Cons a os)
  have sh: "map_sum (\<lambda>e. e) (map_loop_result ucast)
              (stringBitflagCodeWithSkips_loop t os (push_bit n v) si' p1' m' b')
            = mstring_loop t os (push_bit n v') si' p1' (ucast m') b'" for n si' p1' m' b'
    by (rule Cons.IH [of _ "k + n"])
      (simp_all add: Cons.prems push_bit_eq_mult power_add)
  have sh2: "map_sum (\<lambda>e. e) (map_loop_result ucast)
               (stringBitflagCodeWithSkips_loop t os (push_bit 1 (push_bit n v)) si' p1' m' b')
             = mstring_loop t os (push_bit 1 (push_bit n v')) si' p1' (ucast m') b'"
    for n si' p1' m' b'
    by (rule Cons.IH [of _ "k + n + 1"])
      (simp_all add: Cons.prems push_bit_eq_mult power_add)
  show ?case
  proof (cases "a = 0")
    case z: True
    show ?thesis
    proof (cases "si < length (skips t)")
      case True
      show ?thesis
        unfolding z WithSkips_loop_gap [OF True] mstring_loop_gap [OF True] by (rule sh2)
    next
      case False
      show ?thesis
        unfolding z WithSkips_loop_gap_fail [OF False] mstring_loop_gap_fail [OF False] by simp
    qed
  next
    case False
    show ?thesis
    proof (cases "v AND m = 0")
      case True
      with power2_and_ucast [OF assms(1), of k m] Cons.prems have "v' AND ucast m = 0" by simp
      with False True sh [of 1 si "p1 + unat a" m b] show ?thesis
        by (simp add: mstring_loop_absent WithSkips_loop_absent)
    next
      case nz: False
      with power2_and_ucast [OF assms(1), of k m] Cons.prems have nz': "v' AND ucast m \<noteq> 0"
        by simp
      from xor_power2_ucast [OF assms(1), of k m] nz Cons.prems
      have x: "ucast m XOR v' = ucast (m XOR v)" by simp
      have z: "(ucast (m XOR v) :: uint64) = 0 \<longleftrightarrow> m XOR v = 0"
        by (rule ucast_eq_0_iff [OF assms(1)])
      note L = WithSkips_loop_match [OF False nz, of t os si p1 b]
      note R = mstring_loop_match [OF False nz', of t os si p1 b]
      show ?thesis
      proof (cases "slice (names t) p1 (p1 + unat a)")
        case (Inl e)
        then show ?thesis by (simp add: L R)
      next
        case (Inr s)
        show ?thesis
        proof (cases "m XOR v = 0")
          case True
          with Inr x z show ?thesis by (simp add: L R)
        next
          case nx: False
          with z have "(ucast (m XOR v) :: uint64) \<noteq> 0" by simp
          with Inr nx x
            sh [of 1 si "p1 + unat a" "m XOR v" "(if b = [] then ''('' else b @ ''|'') @ s"]
          show ?thesis by (simp add: L R)
        qed
      qed
    qed
  qed
qed

text \<open>
  For an unsigned type, and for a type of 64 bits, \<^verbatim>\<open>uint64(m)\<close> extends with zeros.
\<close>

lemma uint64_of_ucast:
  fixes m :: "'a::len word"
  assumes "\<not> is_signed \<or> LENGTH('a) = 64"
  shows "uint64_of is_signed m = ucast m"
proof (cases is_signed)
  case True
  with assms have l: "LENGTH('a) = 64" by simp
  have "(scast m :: uint64) = ucast m"
    using l by (intro bit_word_eqI) (auto simp add: bit_simps)
  with True show ?thesis by (simp add: uint64_of_def)
next
  case False
  then show ?thesis by (simp add: uint64_of_def)
qed

lemma finish_per_type_ucast:
  fixes r :: "'a::len word loop_result"
  assumes "\<not> is_signed \<or> LENGTH('a) = 64"
  shows "finish_per_type is_signed tn r = finish tn (map_loop_result ucast r)"
  by (cases r) (simp_all add: finish_per_type_def finish_def uint64_of_ucast [OF assms])

text \<open>
  The per-type method and the table-driven method of a type agree on every receiver when
  the type is unsigned or of 64 bits, the initial value is a single bit, and the table has
  no zero offset unless it has skips.
\<close>

lemma per_type_eq_table_driven:
  fixes m :: "'a::len word"
  assumes "LENGTH('a) \<le> 64" and "\<not> is_signed \<or> LENGTH('a) = 64"
    and "singleBitSet (first t)" and "skips t \<noteq> [] \<or> 0 \<notin> set (offsets t)"
  shows "String_per_type is_signed t m = String_table_driven is_signed t m"
proof -
  from singleBitSet_power [OF assms(3)] obtain k where k: "first t = 2 ^ k" by blast
  have v: "(ucast (first t) :: 'a word) = 2 ^ k"
    unfolding k by (rule ucast_power2 [OF assms(1)])
  note u = uint64_of_ucast [OF assms(2)]
  note z = ucast_eq_0_iff [OF assms(1), of m]
  note sim = WithSkips_loop_sim [OF assms(1) v k, of t "offsets t" 0 0 m "[]"]
  have ws: "stringBitflagCodeWithSkips is_signed t m = String_table_driven is_signed t m"
  proof (cases "m = 0")
    case True
    then show ?thesis
      by (simp add: stringBitflagCodeWithSkips_def String_table_driven_def mstring_def u)
  next
    case False
    with z have nz: "(ucast m :: uint64) \<noteq> 0" by simp
    show ?thesis
    proof (cases "stringBitflagCodeWithSkips_loop t (offsets t) (ucast (first t) :: 'a word) 0 0 m []")
      case (Inl e)
      with sim False nz show ?thesis
        by (simp add: stringBitflagCodeWithSkips_def String_table_driven_def mstring_def u
            flip: sim)
    next
      case (Inr r)
      with sim False nz show ?thesis
        by (simp add: stringBitflagCodeWithSkips_def String_table_driven_def mstring_def u
            finish_per_type_ucast [OF assms(2)] flip: sim)
    qed
  qed
  show ?thesis
  proof (cases "length (skips t) = 0")
    case True
    with assms(4) have "0 \<notin> set (offsets t)" by simp
    from noskips_WithSkips_eq [OF this, of t _ 0 m "[]" 0]
    have "stringBitflagCode is_signed t m = stringBitflagCodeWithSkips is_signed t m"
      by (simp add: stringBitflagCode_def stringBitflagCodeWithSkips_def)
    with True ws show ?thesis by (simp add: String_per_type_def)
  next
    case False
    with ws show ?thesis by (simp add: String_per_type_def)
  qed
qed

text \<open>
  At a receiver of 64 bits the two agree whatever the initial value is, under the same
  condition on the zero offsets.
\<close>

lemma finish_per_type_64:
  fixes r :: "uint64 loop_result"
  shows "finish_per_type is_signed tn r = finish tn r"
  by (cases r) (simp_all add: finish_per_type_def finish_def uint64_of_def)

lemma per_type_eq_mstring_64:
  fixes m :: uint64
  assumes "skips t \<noteq> [] \<or> 0 \<notin> set (offsets t)"
  shows "String_per_type is_signed t m = mstring t m"
proof (cases "length (skips t) = 0")
  case True
  with assms have "0 \<notin> set (offsets t)" by simp
  from noskips_loop_eq [OF this] True show ?thesis
    by (simp add: String_per_type_def mstring_def stringBitflagCode_def finish_per_type_64
        split: sum.splits)
next
  case False
  then show ?thesis
    by (simp add: String_per_type_def mstring_def stringBitflagCodeWithSkips_def
        WithSkips_loop_eq finish_per_type_64 split: sum.splits)
qed

lemma per_type_examples:
  "String_per_type True gap_table (2052 :: 64 word) = Inr ''(Two|Eleven)''
   \<and> String_table_driven True gap_table (2052 :: 64 word) = Inr ''(Two|Eleven)''
   \<and> String_per_type False days_table (193 :: 8 word) = Inr ''(Monday|Sunday|Days(0x80))''
   \<and> String_table_driven False days_table (193 :: 8 word) = Inr ''(Monday|Sunday|Days(0x80))''
   \<and> String_per_type True days_table (- 63 :: 8 word)
       = Inr ''(Monday|Sunday|Days(0xffffffffffffff80))''
   \<and> String_table_driven True days_table (- 63 :: 8 word)
       = Inr ''(Monday|Sunday|Days(0xffffffffffffff80))''"
  by code_simp

text \<open>
  With the flags \<^verbatim>\<open>""\<close> at bit 0 and \<^verbatim>\<open>B\<close> at bit 1 the per-type method decodes the mask of
  the two bits to \<^verbatim>\<open>"(|B)"\<close>.
\<close>

lemma per_type_empty_name_pair:
  "String_per_type False empty_name_pair_table (1 OR 2 :: 8 word) = Inr ''(|B)''"
  by code_simp

section \<open>Tables built from single-bit flags with non-empty names\<close>

text \<open>
  Whenever \<^verbatim>\<open>nameAndRest\<close> returns, the non-zero offsets add up to the length of the blob
  and a single run gives no skips; when every flag name is non-empty, there are as many
  skips as zero offsets.
\<close>

lemma nameAndRest_wellformed:
  assumes "nameAndRest runs = Inr (nm, os, ss)"
  shows "sum_list (filter (\<lambda>x. x \<noteq> 0) os) = int (length nm)
         \<and> ((\<forall>x\<in>set (concat runs). name x \<noteq> []) \<longrightarrow> length ss = count_list os 0)
         \<and> (length runs = 1 \<longrightarrow> ss = [])"
proof -
  note r = nameAndRest_Inr [OF assms]
  have "sum_list (filter (\<lambda>x. x \<noteq> 0) os) = int (length nm)"
    using r by (simp add: sum_list_filter_nonzero sum_list_enc_offsets)
  moreover have "length ss = count_list os 0" if "\<forall>x\<in>set (concat runs). name x \<noteq> []"
    using r count_enc_offsets [OF that] by (simp add: length_enc_skips)
  moreover have "ss = []" if "length runs = 1"
    using r that length_enc_skips [of runs] by simp
  ultimately show ?thesis by blast
qed

lemma nameAndRest_wellformed_example:
  "nameAndRest [[\<lparr>name = ''Two'', val = 4, signed = False\<rparr>], [\<lparr>name = ''Five'', val = 32, signed = False\<rparr>]]
     = Inr (''TwoFive'', [3, 0, 4], [2])
   \<and> sum_list (filter (\<lambda>x. x \<noteq> 0) [3, 0, 4 :: int]) = int (length ''TwoFive'')
   \<and> length [2 :: int] = count_list [3, 0, 4 :: int] 0"
proof -
  have h: "nameAndRest [[\<lparr>name = ''Two'', val = 4, signed = False\<rparr>], [\<lparr>name = ''Five'', val = 32, signed = False\<rparr>]]
     = Inr (''TwoFive'', [3, 0, 4], [2])"
    by code_simp
  from nameAndRest_wellformed [OF h] h show ?thesis by simp
qed

text \<open>
  For a table built from constants whose surviving entries all have a single bit set and
  a non-empty name, and for two surviving flags \<^verbatim>\<open>f\<close> and \<^verbatim>\<open>g\<close> with \<^verbatim>\<open>f\<close> at the smaller
  bit, decoding the mask of the two bits gives \<^verbatim>\<open>"(" + f.name + "|" + g.name + ")"\<close>, in
  whichever order the two bits are combined.
\<close>

lemma decode_two_flags:
  assumes "buildBitflag vals typeName = Inr t"
    and "splitIntoBitflagRuns vals = Inr (z, runs)"
    and "\<forall>x\<in>set (concat runs). singleBitSet (val x) \<and> name x \<noteq> []"
    and "f \<in> set (concat runs)" and "g \<in> set (concat runs)" and "val f < val g"
  shows "mstring t (val f OR val g) = Inr (''('' @ name f @ ''|'' @ name g @ '')'')
         \<and> mstring t (val g OR val f) = Inr (''('' @ name f @ ''|'' @ name g @ '')'')"
proof -
  let ?fl = "concat runs"
  from splitIntoBitflagRuns_flags [OF assms(2)] have
    srt: "sorted_wrt (\<lambda>x y. val x < val y) ?fl" by simp
  from assms(3) have sb: "\<forall>x\<in>set ?fl. singleBitSet (val x)" by simp
  from split_list [OF assms(4)] obtain pre ys where fl: "?fl = pre @ f # ys" by blast
  from srt have srt': "sorted_wrt (\<lambda>x y. val x < val y) (pre @ f # ys)" unfolding fl .
  then have pre_lt: "\<forall>x\<in>set pre. val x < val f"
    by (auto simp: sorted_wrt_append)
  from assms(5) have "g \<in> set (pre @ f # ys)" unfolding fl .
  with assms(6) pre_lt have "g \<in> set ys" by auto
  from split_list [OF this] obtain mid post where ys: "ys = mid @ g # post" by blast
  from srt' have mid_lt: "\<forall>x\<in>set mid. val x < val g"
    unfolding ys by (auto simp: sorted_wrt_append)
  have in_fl: "\<And>x. x \<in> set pre \<or> x \<in> set mid \<Longrightarrow> x \<in> set ?fl"
    unfolding fl ys by auto
  have d1: "\<forall>p\<in>set (flag_pairs pre). fst p AND val f = 0 \<and> fst p AND val g = 0"
  proof
    fix p
    assume "p \<in> set (flag_pairs pre)"
    then obtain x where x: "x \<in> set pre" and p: "p = (val x, name x)"
      by (auto simp: flag_pairs_def)
    from x pre_lt assms(6) have "val x \<noteq> val f" and "val x \<noteq> val g" by auto
    with sorted_flags_disjoint [OF srt sb in_fl assms(4)]
      sorted_flags_disjoint [OF srt sb in_fl assms(5)] x p
    show "fst p AND val f = 0 \<and> fst p AND val g = 0" by simp
  qed
  have d2: "\<forall>p\<in>set (flag_pairs mid). fst p AND val g = 0"
  proof
    fix p
    assume "p \<in> set (flag_pairs mid)"
    then obtain x where x: "x \<in> set mid" and p: "p = (val x, name x)"
      by (auto simp: flag_pairs_def)
    from x mid_lt have "val x \<noteq> val g" by auto
    with sorted_flags_disjoint [OF srt sb in_fl assms(5)] x p
    show "fst p AND val g = 0" by simp
  qed
  from assms(6) have "val f \<noteq> val g" by simp
  from sorted_flags_disjoint [OF srt sb assms(4,5) this] have d3: "val f AND val g = 0" .
  from sb assms(4,5) have nz: "val f \<noteq> 0" "val g \<noteq> 0" by (auto simp: singleBitSet_def)
  have pairs: "flag_pairs ?fl
      = flag_pairs pre @ (val f, name f) # flag_pairs mid @ (val g, name g) # flag_pairs post"
    unfolding fl ys by simp
  from nz have m: "val f OR val g \<noteq> 0" by (simp add: or_eq_0_iff)
  from buildBitflag_table_flags [OF assms(1,2,3)] have
    "table_flags t = Inr (flag_pairs ?fl)" .
  from mstring_decode_pairs [OF this m] decode_pairs_two [OF d1 d2 d3 nz]
  have "mstring t (val f OR val g) = Inr (''('' @ name f @ ''|'' @ name g @ '')'')"
    unfolding pairs by (simp add: finish_def)
  then show ?thesis by (simp add: or.commute)
qed

lemma decode_two_flags_example:
  "buildBitflag gap_in_bitflag ''Gap'' = Inr gap_table
   \<and> splitIntoBitflagRuns gap_in_bitflag
       = Inr (Some \<lparr>name = ''Zero'', val = 0, signed = False\<rparr>, gap_runs)
   \<and> list_all (\<lambda>x. singleBitSet (val x) \<and> name x \<noteq> []) (concat gap_runs)
   \<and> mstring gap_table (4 OR 2048) = Inr ''(Two|Eleven)''
   \<and> mstring gap_table (2048 OR 4) = Inr ''(Two|Eleven)''"
proof -
  have b: "buildBitflag gap_in_bitflag ''Gap'' = Inr gap_table" by code_simp
  have s: "splitIntoBitflagRuns gap_in_bitflag
       = Inr (Some \<lparr>name = ''Zero'', val = 0, signed = False\<rparr>, gap_runs)" by code_simp
  have l: "list_all (\<lambda>x. singleBitSet (val x) \<and> name x \<noteq> []) (concat gap_runs)" by code_simp
  then have h: "\<forall>x\<in>set (concat gap_runs). singleBitSet (val x) \<and> name x \<noteq> []"
    by (simp only: list_all_iff)
  have f: "\<lparr>name = ''Two'', val = 4, signed = False\<rparr> \<in> set (concat gap_runs)"
    and g: "\<lparr>name = ''Eleven'', val = 2048, signed = False\<rparr> \<in> set (concat gap_runs)"
    by (simp_all add: gap_runs_def)
  have lt: "val \<lparr>name = ''Two'', val = 4, signed = False\<rparr>
            < val \<lparr>name = ''Eleven'', val = 2048, signed = False\<rparr>" by simp
  from decode_two_flags [OF b s h f g lt] b s l show ?thesis by simp
qed

text \<open>
  For such a table, a mask that is not 0 and has no bit of a surviving flag decodes to
  \<^verbatim>\<open>typeName + "(0x" + hex(mask) + ")"\<close> and nothing else. In the Gap scenario of the golden
  test, \<^verbatim>\<open>1<<4\<close> decodes to \<^verbatim>\<open>"Gap(0x10)"\<close>.
\<close>

lemma decode_unmatched_mask:
  assumes "buildBitflag vals typeName = Inr t"
    and "splitIntoBitflagRuns vals = Inr (z, runs)"
    and "\<forall>x\<in>set (concat runs). singleBitSet (val x) \<and> name x \<noteq> []"
    and "m \<noteq> 0" and "\<forall>x\<in>set (concat runs). val x AND m = 0"
  shows "mstring t m = Inr (typeName @ ''(0x'' @ FormatUint16 m @ '')'')
         \<and> buildBitflag gap_in_bitflag ''Gap'' = Inr gap_table
         \<and> mstring gap_table (push_bit 4 1) = Inr ''Gap(0x10)''"
proof -
  from buildBitflag_table_flags [OF assms(1,2,3)] have
    tf: "table_flags t = Inr (flag_pairs (concat runs))" .
  from assms(5) have "\<forall>p\<in>set (flag_pairs (concat runs)). fst p AND m = 0"
    by (auto simp: flag_pairs_def)
  from decode_pairs_none [OF this] have
    "decode_pairs (flag_pairs (concat runs)) m [] = Exhausted [] m" .
  with mstring_decode_pairs [OF tf assms(4)] buildBitflag_fields [OF assms(1,2)]
  have "mstring t m = Inr (typeName @ ''(0x'' @ FormatUint16 m @ '')'')"
    by (simp add: finish_def fallback_def)
  moreover have "buildBitflag gap_in_bitflag ''Gap'' = Inr gap_table" by code_simp
  moreover have "mstring gap_table (push_bit 4 1) = Inr ''Gap(0x10)''" by code_simp
  ultimately show ?thesis by simp
qed

lemma decode_unmatched_mask_example:
  "buildBitflag gap_in_bitflag ''Gap'' = Inr gap_table
   \<and> splitIntoBitflagRuns gap_in_bitflag
       = Inr (Some \<lparr>name = ''Zero'', val = 0, signed = False\<rparr>, gap_runs)
   \<and> list_all (\<lambda>x. singleBitSet (val x) \<and> name x \<noteq> []) (concat gap_runs)
   \<and> list_all (\<lambda>x. val x AND 1040 = 0) (concat gap_runs)
   \<and> mstring gap_table 1040 = Inr ''Gap(0x410)''"
proof -
  have b: "buildBitflag gap_in_bitflag ''Gap'' = Inr gap_table" by code_simp
  have s: "splitIntoBitflagRuns gap_in_bitflag
       = Inr (Some \<lparr>name = ''Zero'', val = 0, signed = False\<rparr>, gap_runs)" by code_simp
  have l: "list_all (\<lambda>x. singleBitSet (val x) \<and> name x \<noteq> []) (concat gap_runs)" by code_simp
  then have h: "\<forall>x\<in>set (concat gap_runs). singleBitSet (val x) \<and> name x \<noteq> []"
    by (simp only: list_all_iff)
  have l2: "list_all (\<lambda>x. val x AND 1040 = 0) (concat gap_runs)" by code_simp
  then have h2: "\<forall>x\<in>set (concat gap_runs). val x AND 1040 = 0"
    by (simp only: list_all_iff)
  have m: "(1040 :: uint64) \<noteq> 0" by simp
  have x: "''Gap'' @ ''(0x'' @ FormatUint16 1040 @ '')'' = ''Gap(0x410)''" by code_simp
  from decode_unmatched_mask [OF b s h m h2] b s l l2 x show ?thesis by simp
qed

section \<open>The claims\<close>

text \<open>
  C1. On a well-formed table \<^verbatim>\<open>mstring\<close> returns a string for every mask: no index into
  the skips and no slice of the blob is out of range. When the loop runs past the last
  offset, the rest of the mask is not 0 and is printed in hexadecimal.
\<close>

theorem mstring_total:
  assumes "wellformed t"
  shows "\<exists>s. mstring t m = Inr s
         \<and> (\<forall>b r. m \<noteq> 0 \<and> mstring_loop t (offsets t) (first t) 0 0 m [] = Inr (Exhausted b r)
              \<longrightarrow> r \<noteq> 0
                  \<and> s = (if b = [] then fallback (typename t) r
                         else b @ ''|'' @ fallback (typename t) r @ '')''))"
proof (cases "m = 0")
  case True
  then show ?thesis by (simp add: mstring_def)
next
  case False
  from assms have "0 + count_list (offsets t) 0 \<le> length (skips t)"
    and "0 + sum_list (map unat (offsets t)) \<le> length (names t)"
    by (simp_all add: wellformed_def sum_unat_filter_nonzero)
  from mstring_loop_total [OF this] obtain r where
    r: "mstring_loop t (offsets t) (first t) 0 0 m [] = Inr r" by blast
  show ?thesis
  proof (cases r)
    case (Return s)
    with r False show ?thesis by (simp add: mstring_def finish_def)
  next
    case (Exhausted b m')
    from mstring_loop_Exhausted_nonzero [OF r [unfolded Exhausted] False]
    have "m' \<noteq> 0" .
    with r Exhausted False show ?thesis by (simp add: mstring_def finish_def)
  qed
qed

theorem mstring_total_witness:
  "buildBitflag gap_in_bitflag ''Gap'' = Inr gap_table \<and> wellformed gap_table
   \<and> (\<exists>s. mstring gap_table 4294967312 = Inr s \<and> s = ''Gap(0x100000010)'')"
proof -
  have b: "buildBitflag gap_in_bitflag ''Gap'' = Inr gap_table" by code_simp
  have w: "wellformed gap_table" by code_simp
  have l: "mstring_loop gap_table (offsets gap_table) (first gap_table) 0 0 4294967312 []
           = Inr (Exhausted [] 4294967312)" by code_simp
  have f: "fallback (typename gap_table) 4294967312 = ''Gap(0x100000010)''" by code_simp
  from mstring_total [OF w, of 4294967312] l f b w show ?thesis by auto
qed

text \<open>
  C2. For a type whose one flag has an empty name the table has the offset 0 and no skips.
  The shared \<^verbatim>\<open>mstring\<close> reads the offset 0 as a gap and indexes the empty skips: the
  table-driven method panics. The per-type method generated for the same constants is the
  template without skips, which has no test for a zero offset: it returns the name of the
  flag, the empty string. The two differ on the mask 1, for a type of 8 bits and for a
  signed type of 64 bits.
\<close>

theorem mstring_panics_per_type_returns:
  "buildBitflag empty_name_in ''T'' = Inr empty_name_table
   \<and> offsets empty_name_table = [0] \<and> skips empty_name_table = []
   \<and> mstring empty_name_table 1 = Inl IndexOutOfRange
   \<and> String_table_driven False empty_name_table (1 :: 8 word) = Inl IndexOutOfRange
   \<and> String_per_type False empty_name_table (1 :: 8 word) = Inr []
   \<and> String_table_driven True empty_name_table (1 :: 64 word) = Inl IndexOutOfRange
   \<and> String_per_type True empty_name_table (1 :: 64 word) = Inr []"
  by code_simp

text \<open>
  C3, as amended. When a surviving flag of a type has a name of more than 255 bytes,
  \<^verbatim>\<open>buildBitflag\<close> ends with the name-too-long exit of \<^verbatim>\<open>nameAndRest\<close> and builds no table,
  and the program ends there: whatever types come before and after it in the batch,
  \<^verbatim>\<open>genFile\<close> ends with that error and writes nothing.
\<close>

theorem long_name_ends_batch:
  assumes "splitIntoBitflagRuns vals = Inr (z, runs)"
    and "x \<in> set (concat runs)" and "255 < length (name x)"
    and "generate_all pre [] = Inr buf"
  shows "\<exists>n s. 255 < n \<and> buildBitflag vals typeName = Inl (NameTooLong n s)
              \<and> genFile (pre @ (vals, typeName) # post) = Inl (NameTooLong n s)"
proof -
  note fl = splitIntoBitflagRuns_flags [OF assms(1)]
  from fl have ne: "concat runs \<noteq> []" and sr: "runs = split_runs (concat runs)" by simp_all
  have "1 \<le> length (concat runs)" using ne by (cases "concat runs") simp_all
  from run_end_props [OF le_refl this] have "1 \<le> run_end 1 (concat runs)" by simp
  with ne have "take (run_end 1 (concat runs)) (concat runs) \<noteq> []" by simp
  with sr split_runs_Cons [OF ne] obtain v0 r0 rs where runs: "runs = (v0 # r0) # rs"
    by (metis neq_Nil_conv)
  have "\<not> (\<exists>r. nameAndRest runs = Inr r)"
  proof
    assume "\<exists>r. nameAndRest runs = Inr r"
    then obtain nm os ss where "nameAndRest runs = Inr (nm, os, ss)" by auto
    from nameAndRest_Inr [OF this] assms(2) have "length (name x) \<le> 255" by blast
    with assms(3) show False by simp
  qed
  then obtain e where e: "nameAndRest runs = Inl e" by (cases "nameAndRest runs") auto
  then have "nameAndRest_loop (split_runs (concat runs)) ([], [], []) = Inl e"
    using sr by (auto simp: nameAndRest_def split: sum.splits)
  from nameAndRest_loop_split_error [OF _ _ this] fl obtain n s where
    n: "e = NameTooLong n s" "255 < n" by blast
  from assms(1) runs e have b: "buildBitflag vals typeName = Inl e"
    by (simp add: buildBitflag_def)
  from assms(1) have "vals \<noteq> []" by (auto simp: splitIntoBitflagRuns_Nil)
  with b generate_all_append [OF assms(4)]
  have "genFile (pre @ (vals, typeName) # post) = Inl e" by (simp add: genFile_def)
  with b n show ?thesis by blast
qed

theorem long_name_ends_batch_witness:
  "splitIntoBitflagRuns long_name_in
     = Inr (None, [[\<lparr>name = replicate 256 CHR ''a'', val = 1, signed = False\<rparr>]])
   \<and> 255 < length (name \<lparr>name = replicate 256 CHR ''a'', val = 1, signed = False\<rparr>)
   \<and> (\<exists>t. generate_all [(days_in_bitflag, ''Days'')] [] = Inr [t])
   \<and> (\<exists>n s. 255 < n \<and> buildBitflag long_name_in ''L'' = Inl (NameTooLong n s)
          \<and> genFile ([(days_in_bitflag, ''Days'')] @ (long_name_in, ''L'') # [(gap_in_bitflag, ''Gap'')])
              = Inl (NameTooLong n s))"
proof -
  have s: "splitIntoBitflagRuns long_name_in
     = Inr (None, [[\<lparr>name = replicate 256 CHR ''a'', val = 1, signed = False\<rparr>]])"
    by code_simp
  have x: "\<lparr>name = replicate 256 CHR ''a'', val = 1, signed = False\<rparr>
           \<in> set (concat [[\<lparr>name = replicate 256 CHR ''a'', val = 1, signed = False\<rparr>]])"
    by simp
  have n: "255 < length (name \<lparr>name = replicate 256 CHR ''a'', val = 1, signed = False\<rparr>)"
    by simp
  have g: "generate_all [(days_in_bitflag, ''Days'')] []
     = Inr [days_table]"
    by code_simp
  from long_name_ends_batch [OF s x n g, of "''L''" "[(gap_in_bitflag, ''Gap'')]"] s n g
  show ?thesis by simp
qed

text \<open>
  C3, as stated, fails: with a type whose only flag has a name of 256 bytes first in the
  batch, the result of the batch is the error, although the second type alone builds its
  table.
\<close>

theorem long_name_batch_counterexample:
  "genFile [(long_name_in, ''L''), (days_in_bitflag, ''Days'')]
     = Inl (NameTooLong 256 (replicate 256 CHR ''a''))
   \<and> genFile [(days_in_bitflag, ''Days'')]
     = Inr [days_table]"
  by code_simp

text \<open>
  C4. The filter of \<^verbatim>\<open>splitIntoBitflagRuns\<close> never tests element 0: a smallest constant
  with two bits set stays in the runs.
\<close>

theorem splitIntoBitflagRuns_keeps_multibit_first:
  "splitIntoBitflagRuns multibit_in =
     Inr (None, [[\<lparr>name = ''AB'', val = 3, signed = False\<rparr>],
                 [\<lparr>name = ''C'', val = 4, signed = False\<rparr>]])
   \<and> \<not> singleBitSet 3"
  by code_simp

text \<open>
  C5. \<^verbatim>\<open>nameAndRest\<close> appends the length of every name as its offset and refuses only a
  length above 255. For a flag with an empty name the offset is 0, the value that marks a
  gap, and no skip goes with it: the table built has one zero offset and no skips, so the
  number of skips is not the number of zero offsets.
\<close>

theorem nameAndRest_empty_name_zero_offset:
  "nameAndRest [empty_name_in] = Inr ([], [0], [])
   \<and> length ([] :: int list) \<noteq> count_list [0 :: int] 0
   \<and> buildBitflag empty_name_in ''T'' = Inr empty_name_table
   \<and> offsets empty_name_table = [0] \<and> skips empty_name_table = []
   \<and> length (skips empty_name_table) \<noteq> count_list (offsets empty_name_table) 0"
  by code_simp

text \<open>
  C6. Two inputs on which the decoded text of two surviving flags is not
  \<^verbatim>\<open>"(" + name + "|" + name + ")"\<close>. With the flags \<^verbatim>\<open>""\<close> at bit 0 and \<^verbatim>\<open>B\<close> at bit 1 the
  empty name gives the offset 0 (the table is \<^verbatim>\<open>offsets [0, 1]\<close>, \<^verbatim>\<open>skips []\<close>), which
  \<^verbatim>\<open>mstring\<close> reads as a gap: it indexes the empty skips and panics. With the constants
  \<^verbatim>\<open>AB = 3\<close>, \<^verbatim>\<open>C = 4\<close> and \<^verbatim>\<open>D = 8\<close> the filter keeps \<^verbatim>\<open>AB\<close>, the skip after it is 0
  (the table is \<^verbatim>\<open>offsets [2, 0, 1, 1]\<close>, \<^verbatim>\<open>skips [0]\<close>), the shift by \<^verbatim>\<open>skips[si] - 1\<close>
  clears \<^verbatim>\<open>v\<close>, and the mask of \<^verbatim>\<open>C\<close> and \<^verbatim>\<open>D\<close> decodes to \<^verbatim>\<open>"T(0xc)"\<close>.
\<close>

theorem decode_two_flags_fails:
  "splitIntoBitflagRuns empty_name_pair_in
     = Inr (None, [[\<lparr>name = [], val = 1, signed = False\<rparr>,
                    \<lparr>name = ''B'', val = 2, signed = False\<rparr>]])
   \<and> buildBitflag empty_name_pair_in ''T'' = Inr empty_name_pair_table
   \<and> mstring empty_name_pair_table (1 OR 2) = Inl IndexOutOfRange
   \<and> mstring empty_name_pair_table (2 OR 1) = Inl IndexOutOfRange
   \<and> splitIntoBitflagRuns multibit_run_in
     = Inr (None, [[\<lparr>name = ''AB'', val = 3, signed = False\<rparr>],
                   [\<lparr>name = ''C'', val = 4, signed = False\<rparr>,
                    \<lparr>name = ''D'', val = 8, signed = False\<rparr>]])
   \<and> buildBitflag multibit_run_in ''T'' = Inr multibit_run_table
   \<and> mstring multibit_run_table (4 OR 8) = Inr ''T(0xc)''
   \<and> mstring multibit_run_table (8 OR 4) = Inr ''T(0xc)''"
  by code_simp

text \<open>
  C7. In every cache reached by a sequence of calls of the cached \<^verbatim>\<open>mstring\<close> the map holds
  at most 256 entries. An insertion that finds 256 entries or more leaves the map with the
  new entry alone, so a call for a mask that is not cached, on a cache of 256 entries,
  leaves a cache of one entry.
\<close>

theorem cache_bounded:
  assumes "cache_calls (new_cache t) ms = Inr c"
  shows "cache_len c \<le> 256
         \<and> (\<forall>m s. 256 \<le> cache_len c \<longrightarrow>
               cached (cache_insert c m s) = Some (fmupd m s fmempty)
               \<and> cache_len (cache_insert c m s) = 1)
         \<and> (\<forall>m s c'. cache_mstring c m = Inr (s, c') \<longrightarrow>
               cache_len c' \<le> 256
               \<and> (cache_len c = 256 \<and> m \<noteq> 0 \<and> \<not> snd (cache_lookup c m) \<longrightarrow>
                    cache_len c' = 1))"
proof -
  have b: "cache_len c \<le> capCache"
    using cache_calls_bound [OF assms] by (simp add: cache_len_new)
  have r: "cached (cache_insert c m s) = Some (fmupd m s fmempty)
           \<and> cache_len (cache_insert c m s) = 1" if "256 \<le> cache_len c" for m s
    using cache_insert_reset [of c m s] that by (simp add: capCache_def)
  have "cache_len c' \<le> 256
        \<and> (cache_len c = 256 \<and> m \<noteq> 0 \<and> \<not> snd (cache_lookup c m) \<longrightarrow> cache_len c' = 1)"
    if h: "cache_mstring c m = Inr (s, c')" for m s c'
  proof -
    from cache_mstring_bound [OF h b] have "cache_len c' \<le> 256" by (simp add: capCache_def)
    moreover have "cache_len c' = 1"
      if "cache_len c = 256" "m \<noteq> 0" "\<not> snd (cache_lookup c m)"
    proof -
      from cache_mstring_miss [OF that(2,3)] h have "c' = cache_insert c m s"
        by (auto split: sum.splits)
      with r [of m s] that(1) show ?thesis by simp
    qed
    ultimately show ?thesis by blast
  qed
  with b r show ?thesis unfolding capCache_def by blast
qed

theorem cache_bounded_witness:
  "\<exists>c s c'. cache_calls (new_cache gap_table) (map of_nat [1..<257]) = Inr c
     \<and> cache_len c = 256 \<and> \<not> snd (cache_lookup c 257)
     \<and> cache_mstring c 257 = Inr (s, c') \<and> cache_len c' = 1"
proof -
  have w: "wellformed (sb (new_cache gap_table))" by code_simp
  have k: "\<forall>m\<in>set (map of_nat [1..<257]). m |\<notin>| cache_keys (new_cache gap_table)"
    by (simp add: cache_keys_def new_cache_def)
  have l: "cache_len (new_cache gap_table) + length (map (of_nat :: nat \<Rightarrow> uint64) [1..<257]) \<le> capCache"
    by (simp add: cache_len_new capCache_def)
  from cache_calls_fill [OF w masks_1_to_256(1,2) k l] obtain c where
    c: "cache_calls (new_cache gap_table) (map of_nat [1..<257]) = Inr c"
    and sbc: "sb c = sb (new_cache gap_table)"
    and keys: "cache_keys c = cache_keys (new_cache gap_table) |\<union>| fset_of_list (map of_nat [1..<257])"
    and len: "cache_len c = 256"
    by (auto simp: cache_len_new)
  have "(257 :: uint64) |\<notin>| cache_keys c"
    using masks_1_to_256(3) keys by (simp add: cache_keys_def new_cache_def fset_of_list.rep_eq)
  then have miss: "\<not> snd (cache_lookup c 257)" by (simp add: cache_lookup_miss)
  from w sbc have "wellformed (sb c)" by simp
  from mstring_Inr [OF this] obtain s where s: "mstring (sb c) 257 = Inr s" by blast
  from cache_mstring_miss [OF _ miss] s
  have step: "cache_mstring c 257 = Inr (s, cache_insert c 257 s)" by simp
  from cache_bounded [OF c] step len miss have "cache_len (cache_insert c 257 s) = 1" by auto
  with c len miss step show ?thesis by blast
qed

text \<open>
  C8. For a table built by \<^verbatim>\<open>buildBitflag\<close>, decoding the mask 0 returns the name of the
  first constant of the input whose value is 0, and \<^verbatim>\<open>typeName + "(0)"\<close> when there is none.
\<close>

theorem mstring_zero:
  assumes "buildBitflag vals typeName = Inr t"
  shows "mstring t 0 = Inr (case find (\<lambda>v. val v = 0) vals of
                              None \<Rightarrow> typeName @ ''(0)'' | Some z \<Rightarrow> name z)"
  using buildBitflag_zero [OF assms] by (simp add: mstring_def)

theorem mstring_zero_witness:
  "buildBitflag gap_in_bitflag ''Gap'' = Inr gap_table
   \<and> find (\<lambda>v. val v = 0) gap_in_bitflag = Some \<lparr>name = ''Zero'', val = 0, signed = True\<rparr>
   \<and> mstring gap_table 0 = Inr ''Zero''
   \<and> buildBitflag days_in_bitflag ''Days''
       = Inr days_table
   \<and> find (\<lambda>v. val v = 0) days_in_bitflag = None
   \<and> mstring days_table 0 = Inr ''Days(0)''"
proof -
  have b: "buildBitflag gap_in_bitflag ''Gap'' = Inr gap_table" by code_simp
  have f: "find (\<lambda>v. val v = 0) gap_in_bitflag = Some \<lparr>name = ''Zero'', val = 0, signed = True\<rparr>"
    by code_simp
  have b2: "buildBitflag days_in_bitflag ''Days''
       = Inr days_table" by code_simp
  have f2: "find (\<lambda>v. val v = 0) days_in_bitflag = None" by code_simp
  from mstring_zero [OF b] mstring_zero [OF b2] f f2 b b2 show ?thesis by simp
qed

text \<open>
  C9. Two tables with a gap on which a mask inside the gap does not decode to
  \<^verbatim>\<open>typeName + "(0x" + hex(mask) + ")"\<close>. With the flags \<^verbatim>\<open>""\<close> at bit 0 and \<^verbatim>\<open>B\<close> at bit 2
  the offsets have a zero for the empty name and a zero for the gap, and one skip
  (\<^verbatim>\<open>offsets [0, 0, 1]\<close>, \<^verbatim>\<open>skips [1]\<close>): on the
  mask \<^verbatim>\<open>1<<1\<close> \<^verbatim>\<open>mstring\<close> indexes the skips past their end and panics. With the constants
  \<^verbatim>\<open>AB = 3\<close> and \<^verbatim>\<open>C = 8\<close> the filter keeps \<^verbatim>\<open>AB\<close> (the table is \<^verbatim>\<open>offsets [2, 0, 1]\<close>,
  \<^verbatim>\<open>skips [1]\<close>), and after the gap \<^verbatim>\<open>v\<close> is 12, not 8: the
  mask \<^verbatim>\<open>1<<2\<close>, which has no bit of either constant, decodes to \<^verbatim>\<open>"(C|T(0x8))"\<close>.
\<close>

theorem decode_gap_mask_fails:
  "buildBitflag empty_name_gap_in ''T'' = Inr empty_name_gap_table
   \<and> (1 :: uint64) AND push_bit 1 1 = 0 \<and> (4 :: uint64) AND push_bit 1 1 = 0
   \<and> mstring empty_name_gap_table (push_bit 1 1) = Inl IndexOutOfRange
   \<and> buildBitflag multibit_gap_in ''T'' = Inr multibit_gap_table
   \<and> (3 :: uint64) AND push_bit 2 1 = 0 \<and> (8 :: uint64) AND push_bit 2 1 = 0
   \<and> mstring multibit_gap_table (push_bit 2 1) = Inr ''(C|T(0x8))''"
  by code_simp

text \<open>
  C10. For the constants \<^verbatim>\<open>AB = 3\<close> and \<^verbatim>\<open>C = 4\<close> the skip between the two runs is 0:
  \<^verbatim>\<open>skips[si] - 1\<close> wraps to 255 in the decoder, the shift clears \<^verbatim>\<open>v\<close>, and the flag \<^verbatim>\<open>C\<close> is
  never matched.
\<close>

theorem buildBitflag_skip_zero:
  "buildBitflag multibit_in ''T'' =
     Inr \<lparr>typename = ''T'', zero = ''T(0)'', names = ''ABC'', first = 3,
          offsets = [2, 0, 1], skips = [0]\<rparr>
   \<and> (0 :: uint8) - 1 = 255
   \<and> mstring \<lparr>typename = ''T'', zero = ''T(0)'', names = ''ABC'', first = 3,
              offsets = [2, 0, 1], skips = [0]\<rparr> 4 = Inr ''T(0x4)''"
  by code_simp

end
